theory Spec2Isabelle
  imports Complex_Main
begin

section \<open>Gamepad tester: sampling, edge detection and the bounded input log\<close>

text \<open>
  A shallow embedding of \<^verbatim>\<open>App.tsx\<close> (the component \<^verbatim>\<open>App\<close>) and of \<^verbatim>\<open>types.ts\<close>.

  \<^item> JavaScript numbers that the code only copies or compares with zero (button values,
    axes, the device timestamp) are reals.
  \<^item> JavaScript strings are byte strings: ASCII text as it stands, every other character
    by its UTF-8 bytes.
  \<^item> A JavaScript array is a list. Reading past its end gives \<^verbatim>\<open>undefined\<close>
    (\<open>None\<close> in \<open>js_at\<close>); writing past its end extends it, the slots in between
    staying empty (\<open>js_set\<close>). An array that may hold empty slots is a list of options.
  \<^item> The React state of the component is a record; a call of a state setter is a value
    of type \<open>update\<close>, applied when the callback that issued it has returned. The
    component is then rendered again, which throws when the snapshot lacks a trigger
    button (\<open>renderPanel\<close>, \<open>step\<close>); when it does not, the two effects of the
    component run (\<open>commit\<close>).
\<close>

subsection \<open>JavaScript arrays and strings\<close>

definition js_at :: "'a list \<Rightarrow> nat \<Rightarrow> 'a option" where
  "js_at xs i = (if i < length xs then Some (xs ! i) else None)"

text \<open>An array with empty slots: \<open>None\<close> is a slot that was never written.\<close>

definition js_get :: "'a option list \<Rightarrow> nat \<Rightarrow> 'a option" where
  "js_get xs i = (if i < length xs then xs ! i else None)"

definition js_set :: "'a option list \<Rightarrow> nat \<Rightarrow> 'a \<Rightarrow> 'a option list" where
  "js_set xs i v =
     (if i < length xs then xs[i := Some v]
      else xs @ replicate (i - length xs) None @ [Some v])"

text \<open>Truthiness of a slot that holds a boolean or nothing: \<^verbatim>\<open>undefined\<close> is falsy.\<close>

definition truthy :: "bool option \<Rightarrow> bool" where
  "truthy v = (v = Some True)"

text \<open>
  Decimal rendering of an integer, as a template literal interpolates it (a number of
  less than 22 digits, as a timestamp or an array index is).
\<close>

definition digit_char :: "nat \<Rightarrow> char" where
  "digit_char d = ''0123456789'' ! d"

fun show_nat :: "nat \<Rightarrow> string" where
  "show_nat n = (if n < 10 then [digit_char n] else show_nat (n div 10) @ [digit_char (n mod 10)])"

declare show_nat.simps [simp del]

definition show_int :: "int \<Rightarrow> string" where
  "show_int t = (if t < 0 then CHR ''-'' # show_nat (nat (- t)) else show_nat (nat t))"

text \<open>\<^verbatim>\<open>s.padStart(n, c)\<close> for a one-character pad.\<close>

definition padStart :: "nat \<Rightarrow> char \<Rightarrow> string \<Rightarrow> string" where
  "padStart n c s = replicate (n - length s) c @ s"

subsection \<open>Data: \<^verbatim>\<open>types.ts\<close>, the platform's gamepads, log entries\<close>

text \<open>The platform's \<^verbatim>\<open>GamepadButton\<close> and \<^verbatim>\<open>Gamepad\<close> objects (fields prefixed).\<close>

record GamepadButton =
  gb_pressed :: bool
  gb_touched :: bool
  gb_value :: real

record Gamepad =
  gp_id :: string
  gp_index :: nat
  gp_connected :: bool
  gp_timestamp :: real
  gp_buttons :: "GamepadButton list"
  gp_axes :: "real list"

text \<open>
  \<^verbatim>\<open>GamepadState\<close> of \<^verbatim>\<open>types.ts\<close>; its buttons are objects \<^verbatim>\<open>{pressed, value}\<close>
  (\<^verbatim>\<open>value\<close> is \<open>btn_value\<close> here, \<^verbatim>\<open>id\<close> is \<open>state_id\<close>).
\<close>

record ButtonState =
  pressed :: bool
  btn_value :: real

record GamepadState =
  state_id :: string
  connected :: bool
  timestamp :: real
  buttons :: "ButtonState list"
  axes :: "real list"

datatype ButtonIndex =
  ButtonIndex_A | ButtonIndex_B | ButtonIndex_X | ButtonIndex_Y
  | ButtonIndex_LB | ButtonIndex_RB | ButtonIndex_LT | ButtonIndex_RT
  | ButtonIndex_Back | ButtonIndex_Start | ButtonIndex_LS | ButtonIndex_RS
  | ButtonIndex_DPadUp | ButtonIndex_DPadDown | ButtonIndex_DPadLeft | ButtonIndex_DPadRight
  | ButtonIndex_Home

fun button_index :: "ButtonIndex \<Rightarrow> nat" where
  "button_index ButtonIndex_A = 0"
| "button_index ButtonIndex_B = 1"
| "button_index ButtonIndex_X = 2"
| "button_index ButtonIndex_Y = 3"
| "button_index ButtonIndex_LB = 4"
| "button_index ButtonIndex_RB = 5"
| "button_index ButtonIndex_LT = 6"
| "button_index ButtonIndex_RT = 7"
| "button_index ButtonIndex_Back = 8"
| "button_index ButtonIndex_Start = 9"
| "button_index ButtonIndex_LS = 10"
| "button_index ButtonIndex_RS = 11"
| "button_index ButtonIndex_DPadUp = 12"
| "button_index ButtonIndex_DPadDown = 13"
| "button_index ButtonIndex_DPadLeft = 14"
| "button_index ButtonIndex_DPadRight = 15"
| "button_index ButtonIndex_Home = 16"

datatype AxisIndex = AxisIndex_LX | AxisIndex_LY | AxisIndex_RX | AxisIndex_RY

fun axis_index :: "AxisIndex \<Rightarrow> nat" where
  "axis_index AxisIndex_LX = 0"
| "axis_index AxisIndex_LY = 1"
| "axis_index AxisIndex_RX = 2"
| "axis_index AxisIndex_RY = 3"

record LogEntry =
  entry_id :: string
  button :: string
  time :: string

text \<open>
  \<^verbatim>\<open>BUTTON_MAP\<close>. The labels of 10 to 15 hold CJK characters and arrows, written here by
  their UTF-8 bytes.
\<close>

definition BUTTON_MAP :: "nat \<rightharpoonup> string" where
  "BUTTON_MAP = map_of
     [(0, ''A''), (1, ''B''), (2, ''X''), (3, ''Y''), (4, ''LB''), (5, ''RB''),
      (6, ''LT''), (7, ''RT''), (8, ''View''), (9, ''Menu''),
      (10, ''LS ('' @ map char_of [0xE5, 0xB7, 0xA6, 0xE6, 0x91, 0x87, 0xE6, 0x9D, 0x86 :: nat] @ '')''),
      (11, ''RS ('' @ map char_of [0xE5, 0x8F, 0xB3, 0xE6, 0x91, 0x87, 0xE6, 0x9D, 0x86 :: nat] @ '')''),
      (12, map char_of [0xE2, 0x86, 0x91, 0x20, 0xE4, 0xB8, 0x8A :: nat]),
      (13, map char_of [0xE2, 0x86, 0x93, 0x20, 0xE4, 0xB8, 0x8B :: nat]),
      (14, map char_of [0xE2, 0x86, 0x90, 0x20, 0xE5, 0xB7, 0xA6 :: nat]),
      (15, map char_of [0xE2, 0x86, 0x92, 0x20, 0xE5, 0x8F, 0xB3 :: nat]),
      (16, ''Xbox''), (17, ''Share'')]"

text \<open>\<^verbatim>\<open>BUTTON_MAP[index] || `Button ${index}`\<close>: a missing or empty label falls back.\<close>

definition btnName :: "nat \<Rightarrow> string" where
  "btnName index =
     (case BUTTON_MAP index of
        Some s \<Rightarrow> if s = [] then ''Button '' @ show_nat index else s
      | None \<Rightarrow> ''Button '' @ show_nat index)"

subsection \<open>The clock and the random source\<close>

text \<open>
  \<^verbatim>\<open>new Date()\<close>: the milliseconds since the epoch, the millisecond of the second, and
  the text the platform's \<^verbatim>\<open>toLocaleTimeString\<close> gives for it.
\<close>

record Date =
  getTime :: int
  getMilliseconds :: nat
  toLocaleTimeString :: string

definition timeString :: "Date \<Rightarrow> string" where
  "timeString d = toLocaleTimeString d @ ''.'' @ padStart 3 CHR ''0'' (show_nat (getMilliseconds d))"

text \<open>
  What one animation frame reads from its environment: \<^verbatim>\<open>navigator.getGamepads()\<close>
  (a slot is a gamepad or \<^verbatim>\<open>null\<close>), the clock, and the results of the calls of
  \<^verbatim>\<open>Math.random()\<close> in the order they are made, each as the text its interpolation
  into a template literal gives.
\<close>

record Frame =
  getGamepads :: "Gamepad option list"
  now :: Date
  random :: "nat \<Rightarrow> string"

subsection \<open>The component's state\<close>

text \<open>
  The state of \<^verbatim>\<open>App\<close> that the sampling loop touches: the three \<^verbatim>\<open>useState\<close> cells,
  the array behind \<^verbatim>\<open>prevButtonsRef\<close>, and the value of \<^verbatim>\<open>activeGamepadIndex\<close> that
  the listeners registered so far have captured (the second effect adds a pair of
  listeners each time it runs and its clean-up removes none).
\<close>

record App =
  activeGamepadIndex :: "nat option"
  gamepadState :: "GamepadState option"
  inputLog :: "LogEntry list"
  prevButtonsRef :: "bool option list"
  listeners :: "nat option list"

text \<open>A call of a state setter, with a value or with an updater function.\<close>

datatype update =
  SetActiveGamepadIndex "nat option"
  | SetGamepadState "GamepadState option"
  | SetInputLog "LogEntry list"
  | UpdateInputLog "LogEntry list \<Rightarrow> LogEntry list"

fun apply_update :: "App \<Rightarrow> update \<Rightarrow> App" where
  "apply_update st (SetActiveGamepadIndex a) = st\<lparr>activeGamepadIndex := a\<rparr>"
| "apply_update st (SetGamepadState g) = st\<lparr>gamepadState := g\<rparr>"
| "apply_update st (SetInputLog l) = st\<lparr>inputLog := l\<rparr>"
| "apply_update st (UpdateInputLog f) = st\<lparr>inputLog := f (inputLog st)\<rparr>"

definition apply_updates :: "App \<Rightarrow> update list \<Rightarrow> App" where
  "apply_updates st us = foldl apply_update st us"

text \<open>\<^verbatim>\<open>new Array(20).fill(false)\<close>.\<close>

definition freshTracker :: "bool option list" where
  "freshTracker = replicate 20 (Some False)"

text \<open>
  The two effects, both keyed on \<^verbatim>\<open>activeGamepadIndex\<close> (the second through
  \<^verbatim>\<open>scanGamepads\<close> as well, which changes with it): when the committed index differs
  from the one of the previous render, the first effect replaces the tracker and calls
  \<^verbatim>\<open>setInputLog([])\<close>, and the second registers listeners that capture the new index.
\<close>

definition commit :: "nat option \<Rightarrow> App \<Rightarrow> App" where
  "commit before st =
     (if activeGamepadIndex st \<noteq> before
      then apply_updates
             (st\<lparr>prevButtonsRef := freshTracker,
                 listeners := listeners st @ [activeGamepadIndex st]\<rparr>)
             [SetInputLog []]
      else st)"

text \<open>The component after its first render and the first run of its effects.\<close>

definition mounted :: App where
  "mounted =
     \<lparr>activeGamepadIndex = None, gamepadState = None, inputLog = [],
      prevButtonsRef = freshTracker, listeners = [None]\<rparr>"

subsection \<open>\<^verbatim>\<open>mapGamepadToState\<close>\<close>

definition mapGamepadToState :: "Gamepad \<Rightarrow> GamepadState" where
  "mapGamepadToState gp =
     \<lparr>state_id = gp_id gp,
      connected = gp_connected gp,
      timestamp = gp_timestamp gp,
      buttons = map (\<lambda>b. \<lparr>pressed = gb_pressed b, btn_value = gb_value b\<rparr>) (gp_buttons gp),
      axes = gp_axes gp\<rparr>"

subsection \<open>\<^verbatim>\<open>scanGamepads\<close>\<close>

text \<open>
  The body of \<^verbatim>\<open>currentGp.buttons.forEach((btn, index) => ...)\<close>, from \<open>index\<close> on. The
  state of the loop is the tracker and \<^verbatim>\<open>newLogs\<close>; \<^verbatim>\<open>Math.random()\<close> is called once for
  each entry pushed, so the entry pushed after \<open>k\<close> others gets the \<open>k\<close>-th result.
\<close>

definition newEntry :: "Date \<Rightarrow> string \<Rightarrow> nat \<Rightarrow> LogEntry" where
  "newEntry d r index =
     \<lparr>entry_id = show_int (getTime d) @ ''-'' @ show_nat index @ ''-'' @ r,
      button = btnName index,
      time = timeString d\<rparr>"

fun forEach_button ::
  "Date \<Rightarrow> (nat \<Rightarrow> string) \<Rightarrow> GamepadButton list \<Rightarrow> nat \<Rightarrow>
   bool option list \<times> LogEntry list \<Rightarrow> bool option list \<times> LogEntry list" where
  "forEach_button d rnd [] index (prev, newLogs) = (prev, newLogs)"
| "forEach_button d rnd (btn # rest) index (prev, newLogs) =
     (let prev1 = (if length prev \<le> index then js_set prev index False else prev);
          newLogs1 =
            (if gb_pressed btn \<and> \<not> truthy (js_get prev1 index)
             then newLogs @ [newEntry d (rnd (length newLogs)) index]
             else newLogs);
          prev2 = js_set prev1 index (gb_pressed btn)
      in forEach_button d rnd rest (Suc index) (prev2, newLogs1))"

text \<open>The auto-detect loop: the first slot from \<open>i\<close> on that holds a connected gamepad.\<close>

fun autoDetect :: "Gamepad option list \<Rightarrow> nat \<Rightarrow> (nat \<times> Gamepad) option" where
  "autoDetect [] i = None"
| "autoDetect (None # gs) i = autoDetect gs (Suc i)"
| "autoDetect (Some gp # gs) i =
     (if gp_connected gp then Some (i, gp) else autoDetect gs (Suc i))"

text \<open>
  \<^verbatim>\<open>activeGamepadIndex !== null && gamepads[activeGamepadIndex] &&
  gamepads[activeGamepadIndex]?.connected\<close>: the gamepad of the active slot, when there is
  one and it is connected.
\<close>

definition activeGamepad :: "nat option \<Rightarrow> Gamepad option list \<Rightarrow> Gamepad option" where
  "activeGamepad a gamepads =
     (case a of
        None \<Rightarrow> None
      | Some i \<Rightarrow>
          (case js_at gamepads i of
             Some (Some gp) \<Rightarrow> if gp_connected gp then Some gp else None
           | _ \<Rightarrow> None))"

text \<open>
  The selection at the head of \<^verbatim>\<open>scanGamepads\<close>: the setter calls it makes and
  \<^verbatim>\<open>currentGp\<close>.
\<close>

definition selectGamepad :: "nat option \<Rightarrow> Gamepad option list \<Rightarrow> update list \<times> Gamepad option" where
  "selectGamepad a gamepads =
     (case activeGamepad a gamepads of
        Some gp \<Rightarrow> ([], Some gp)
      | None \<Rightarrow>
          (case autoDetect gamepads 0 of
             Some (i, gp) \<Rightarrow> ([SetActiveGamepadIndex (Some i)], Some gp)
           | None \<Rightarrow> ([], None)))"

text \<open>
  One call of \<^verbatim>\<open>scanGamepads\<close>, as the closure over \<open>activeGamepadIndex st\<close>: the setter
  calls in the order they are made, and the tracker as the call leaves it. (The
  re-arming \<^verbatim>\<open>requestAnimationFrame\<close> is the caller's next \<open>Tick\<close>.)
\<close>

definition scanGamepads :: "App \<Rightarrow> Frame \<Rightarrow> update list \<times> bool option list" where
  "scanGamepads st f =
     (case selectGamepad (activeGamepadIndex st) (getGamepads f) of
        (sel, Some currentGp) \<Rightarrow>
          (let (prev, newLogs) =
                 forEach_button (now f) (random f) (gp_buttons currentGp) 0 (prevButtonsRef st, [])
           in (sel @ [SetGamepadState (Some (mapGamepadToState currentGp))]
                 @ (if length newLogs > 0
                    then [UpdateInputLog (\<lambda>prev. take 50 (newLogs @ prev))]
                    else []),
               prev))
      | (sel, None) \<Rightarrow>
          (sel @ [SetGamepadState None]
             @ (if activeGamepadIndex st \<noteq> None then [SetActiveGamepadIndex None] else []),
           prevButtonsRef st))"

text \<open>\<^verbatim>\<open>newLogs\<close> of a call: the entries its \<^verbatim>\<open>forEach\<close> pushed (none without a gamepad).\<close>

definition newLogs_of :: "App \<Rightarrow> Frame \<Rightarrow> LogEntry list" where
  "newLogs_of st f =
     (case snd (selectGamepad (activeGamepadIndex st) (getGamepads f)) of
        Some currentGp \<Rightarrow>
          snd (forEach_button (now f) (random f) (gp_buttons currentGp) 0 (prevButtonsRef st, []))
      | None \<Rightarrow> [])"

subsection \<open>Listeners and \<^verbatim>\<open>clearLog\<close>\<close>

text \<open>
  \<^verbatim>\<open>gamepadconnected\<close> and \<^verbatim>\<open>gamepaddisconnected\<close> run every registered listener, each
  with the index it captured.
\<close>

definition onConnected :: "App \<Rightarrow> nat \<Rightarrow> update list" where
  "onConnected st k =
     concat (map (\<lambda>a. if a = None then [SetActiveGamepadIndex (Some k)] else []) (listeners st))"

definition onDisconnected :: "App \<Rightarrow> nat \<Rightarrow> update list" where
  "onDisconnected st k =
     concat (map (\<lambda>a. if a = Some k then [SetActiveGamepadIndex None, SetGamepadState None] else [])
       (listeners st))"

definition clearLog :: "update list" where
  "clearLog = [SetInputLog []]"

subsection \<open>The data panel's reads of the snapshot\<close>

text \<open>
  The joystick and trigger card of the returned JSX, for a non-null \<^verbatim>\<open>gamepadState\<close>:
  \<^verbatim>\<open>gamepadState.axes[AxisIndex.LX] || 0\<close> for the four axes, and
  \<^verbatim>\<open>gamepadState.buttons[ButtonIndex.LT].value\<close> for the two triggers. Reading a
  property of \<^verbatim>\<open>undefined\<close> throws a \<^verbatim>\<open>TypeError\<close>.
\<close>

datatype error = TypeError

definition axisOrZero :: "GamepadState \<Rightarrow> AxisIndex \<Rightarrow> real" where
  "axisOrZero gs a =
     (case js_at (axes gs) (axis_index a) of
        Some v \<Rightarrow> if v = 0 then 0 else v
      | None \<Rightarrow> 0)"

definition triggerValue :: "GamepadState \<Rightarrow> ButtonIndex \<Rightarrow> error + real" where
  "triggerValue gs b =
     (case js_at (buttons gs) (button_index b) of
        Some bt \<Rightarrow> Inr (btn_value bt)
      | None \<Rightarrow> Inl TypeError)"

text \<open>
  What the card shows: the two stick positions and the two trigger values as read (the
  arithmetic on them, times 100 and \<^verbatim>\<open>toFixed\<close>, is left out).
\<close>

record Panel =
  leftStick :: "real \<times> real"
  rightStick :: "real \<times> real"
  ltValue :: real
  rtValue :: real

definition renderPanel :: "GamepadState option \<Rightarrow> error + Panel option" where
  "renderPanel g =
     (case g of
        None \<Rightarrow> Inr None
      | Some gs \<Rightarrow>
          (case triggerValue gs ButtonIndex_LT of
             Inl e \<Rightarrow> Inl e
           | Inr lt \<Rightarrow>
               (case triggerValue gs ButtonIndex_RT of
                  Inl e \<Rightarrow> Inl e
                | Inr rt \<Rightarrow>
                    Inr (Some
                      \<lparr>leftStick = (axisOrZero gs AxisIndex_LX, axisOrZero gs AxisIndex_LY),
                       rightStick = (axisOrZero gs AxisIndex_RX, axisOrZero gs AxisIndex_RY),
                       ltValue = lt,
                       rtValue = rt\<rparr>))))"

subsection \<open>Events\<close>

text \<open>
  What can happen to the mounted component: an animation frame, one of the two gamepad
  events, a click on the clear button. The callback runs to its end (\<open>callback\<close>: the
  state with its setter calls applied and the tracker as it left it). React then renders
  \<^verbatim>\<open>App\<close> again with that state. The render reads the triggers of the snapshot
  (\<open>renderPanel\<close>); when that throws, the error leaves the render, React unmounts the
  component and nothing of it is left: no effect runs and no later callback (the
  clean-up cancels the animation frame). Otherwise the effects run (\<open>commit\<close>) before the
  next callback. The child component \<^verbatim>\<open>XboxControllerVisual\<close> is not among the sources
  and is taken to render without throwing.
\<close>

datatype event =
  Tick Frame
  | GamepadConnected nat
  | GamepadDisconnected nat
  | ClearLog

fun callback :: "App \<Rightarrow> event \<Rightarrow> App" where
  "callback st (Tick f) =
     (case scanGamepads st f of (us, prev) \<Rightarrow> apply_updates (st\<lparr>prevButtonsRef := prev\<rparr>) us)"
| "callback st (GamepadConnected k) = apply_updates st (onConnected st k)"
| "callback st (GamepadDisconnected k) = apply_updates st (onDisconnected st k)"
| "callback st ClearLog = apply_updates st clearLog"

text \<open>The state after the callback and the effects, for a render that does not throw.\<close>

definition advance :: "App \<Rightarrow> event \<Rightarrow> App" where
  "advance st e = commit (activeGamepadIndex st) (callback st e)"

definition step :: "App \<Rightarrow> event \<Rightarrow> error + App" where
  "step st e =
     (case renderPanel (gamepadState (callback st e)) of
        Inl err \<Rightarrow> Inl err
      | Inr panel \<Rightarrow> Inr (advance st e))"

text \<open>A run of events stops at the first render that throws.\<close>

fun run :: "App \<Rightarrow> event list \<Rightarrow> error + App" where
  "run st [] = Inr st"
| "run st (e # es) = (case step st e of Inl err \<Rightarrow> Inl err | Inr st' \<Rightarrow> run st' es)"

section \<open>Notions the properties are stated with\<close>

text \<open>The state that a run of events reaches when no render on the way throws.\<close>

definition advances :: "App \<Rightarrow> event list \<Rightarrow> App" where
  "advances st es = foldl advance st es"

text \<open>
  The rising edges of a frame: the button indices, in ascending order, whose button is
  pressed now while the tracker's slot is false or empty.
\<close>

definition risingEdges :: "bool option list \<Rightarrow> GamepadButton list \<Rightarrow> nat list" where
  "risingEdges prev bs =
     filter (\<lambda>i. gb_pressed (bs ! i) \<and> \<not> truthy (js_get prev i)) [0..<length bs]"

text \<open>The same for buttons numbered from \<open>k\<close> on (the rest of a loop).\<close>

definition risingFrom :: "bool option list \<Rightarrow> nat \<Rightarrow> GamepadButton list \<Rightarrow> nat list" where
  "risingFrom prev k bs =
     map fst (filter (\<lambda>(i, b). gb_pressed b \<and> \<not> truthy (js_get prev i)) (zip [k..<k + length bs] bs))"

text \<open>One entry for each index of a list, the \<open>j\<close>-th with the \<open>(n + j)\<close>-th random result.\<close>

definition stamp :: "Date \<Rightarrow> (nat \<Rightarrow> string) \<Rightarrow> nat \<Rightarrow> nat list \<Rightarrow> LogEntry list" where
  "stamp d rnd n is = map (\<lambda>(k, i). newEntry d (rnd k) i) (zip [n..<n + length is] is)"

text \<open>How many entries of a list were made for button \<open>i\<close> at date \<open>d\<close>.\<close>

definition entriesFor :: "Date \<Rightarrow> nat \<Rightarrow> LogEntry list \<Rightarrow> nat" where
  "entriesFor d i es = length (filter (\<lambda>e. \<exists>r. e = newEntry d r i) es)"

text \<open>A slot that refers to a connected device.\<close>

definition slotConnected :: "Gamepad option list \<Rightarrow> nat \<Rightarrow> bool" where
  "slotConnected gamepads i =
     (case js_at gamepads i of Some (Some gp) \<Rightarrow> gp_connected gp | _ \<Rightarrow> False)"

definition keepsActive :: "nat option \<Rightarrow> Gamepad option list \<Rightarrow> bool" where
  "keepsActive a gamepads = (case a of Some i \<Rightarrow> slotConnected gamepads i | None \<Rightarrow> False)"

text \<open>A setter call that writes the log.\<close>

fun writesLog :: "update \<Rightarrow> bool" where
  "writesLog (SetInputLog l) = True"
| "writesLog (UpdateInputLog g) = True"
| "writesLog u = False"

text \<open>
  The entries made since the log was last emptied, newest frame first: an event that
  empties the log (a click on the clear button, or one that changes the active slot)
  starts from nothing, any other frame puts its entries in front.
\<close>

fun emitted :: "App \<Rightarrow> event \<Rightarrow> LogEntry list" where
  "emitted st (Tick f) = newLogs_of st f"
| "emitted st e = []"

fun empties :: "App \<Rightarrow> event \<Rightarrow> bool" where
  "empties st ClearLog = True"
| "empties st e = (activeGamepadIndex (advance st e) \<noteq> activeGamepadIndex st)"


text \<open>The frames of a list of events, and when no two of them can make the same id.\<close>

fun ticks :: "event list \<Rightarrow> Frame list" where
  "ticks [] = []"
| "ticks (Tick f # es) = f # ticks es"
| "ticks (e # es) = ticks es"

definition separate :: "Frame \<Rightarrow> Frame \<Rightarrow> bool" where
  "separate f g =
     (getTime (now f) \<noteq> getTime (now g) \<or> (\<forall>j k. random f j \<noteq> random g k))"

fun separated :: "Frame list \<Rightarrow> bool" where
  "separated [] = True"
| "separated (f # fs) = ((\<forall>g \<in> set fs. separate f g) \<and> separated fs)"

section \<open>Example inputs\<close>

text \<open>A connected gamepad in slot \<open>k\<close> with the given buttons pressed or not, and four axes.\<close>

definition pad :: "nat \<Rightarrow> bool list \<Rightarrow> Gamepad" where
  "pad k ps =
     \<lparr>gp_id = ''pad'', gp_index = k, gp_connected = True, gp_timestamp = 0,
      gp_buttons = map (\<lambda>p. \<lparr>gb_pressed = p, gb_touched = p, gb_value = (if p then 1 else 0)\<rparr>) ps,
      gp_axes = [0, 0, 0, 0]\<rparr>"

text \<open>One with eight buttons, the first two as given and the others released.\<close>

definition pad8 :: "nat \<Rightarrow> bool \<Rightarrow> bool \<Rightarrow> Gamepad" where
  "pad8 k a b = pad k [a, b, False, False, False, False, False, False]"

definition unplugged :: "Gamepad \<Rightarrow> Gamepad" where
  "unplugged gp = gp\<lparr>gp_connected := False\<rparr>"

definition clock :: "int \<Rightarrow> Date" where
  "clock t = \<lparr>getTime = t, getMilliseconds = nat (t mod 1000), toLocaleTimeString = ''12:00:00''\<rparr>"

text \<open>A frame at time \<open>t\<close> in which every call of \<^verbatim>\<open>Math.random()\<close> gives 0.5.\<close>

definition frameAt :: "int \<Rightarrow> Gamepad option list \<Rightarrow> Frame" where
  "frameAt t gps = \<lparr>getGamepads = gps, now = clock t, random = (\<lambda>k. ''0.5'')\<rparr>"

text \<open>
  The first frames of a session on an eight-button gamepad in slot 0: nothing pressed,
  then button 0 pressed, then buttons 0 and 1 pressed.
\<close>

definition idle :: Frame where
  "idle = frameAt 1 [Some (pad8 0 False False)]"

definition press0 :: Frame where
  "press0 = frameAt 2 [Some (pad8 0 True False)]"

definition press01 :: Frame where
  "press01 = frameAt 3 [Some (pad8 0 True True)]"

text \<open>The state after \<open>idle\<close>, and after \<open>idle\<close> and \<open>press0\<close>: button 0 held, one entry logged.\<close>

definition detected :: App where
  "detected = advance mounted (Tick idle)"

definition held :: App where
  "held = advance detected (Tick press0)"

text \<open>Third frames: button 0 still held; button 0 released; buttons 2 and 3 pressed as well.\<close>

definition hold0 :: Frame where
  "hold0 = frameAt 3 [Some (pad8 0 True False)]"

definition release0 :: Frame where
  "release0 = frameAt 3 [Some (pad8 0 False False)]"

definition twoAtOnce :: Frame where
  "twoAtOnce = frameAt 3 [Some (pad 0 [True, False, True, True, False, False, False, False])]"

text \<open>A gamepad with 21 buttons, one more than the tracker is allocated for.\<close>

definition pad21 :: Gamepad where
  "pad21 = pad 0 (replicate 20 False @ [True])"



text \<open>
  Third frames after which slot 0 stays active, slot 2 takes over, no slot is left, and
  slot 1 takes over with nothing pressed.
\<close>

definition stays :: Frame where
  "stays = frameAt 3 [Some (pad8 0 True False), Some (pad8 1 False False)]"

definition moves :: Frame where
  "moves = frameAt 3 [Some (unplugged (pad8 0 True False)), None, Some (pad8 2 False False), Some (pad8 3 False False)]"

definition gone :: Frame where
  "gone = frameAt 3 [Some (unplugged (pad8 0 True False)), None]"

definition swapQuiet :: Frame where
  "swapQuiet = frameAt 3 [Some (unplugged (pad8 0 True False)), Some (pad8 1 False False)]"

text \<open>Two buttons pressed together at time 5, released at \<open>t\<close>, pressed again at \<open>u\<close>.\<close>

definition pressTwice :: "int \<Rightarrow> int \<Rightarrow> event list" where
  "pressTwice t u =
     [Tick idle, Tick (frameAt 5 [Some (pad8 0 True True)]),
      Tick (frameAt t [Some (pad8 0 False False)]), Tick (frameAt u [Some (pad8 0 True True)])]"

text \<open>A connected gamepad that reports two buttons, none pressed.\<close>

definition twoButtonPad :: Gamepad where
  "twoButtonPad = pad 0 [False, False]"

section \<open>Lemmas\<close>

subsection \<open>Arrays and the button loop\<close>

lemma js_get_js_set: "js_get (js_set p j v) i = (if i = j then Some v else js_get p i)"
  by (auto simp: js_get_def js_set_def nth_append nth_Cons')

lemma length_js_set: "length (js_set p j v) = max (length p) (Suc j)"
  by (auto simp: js_set_def)

lemma js_set_twice: "js_set (js_set p j u) j v = js_set p j v"
  by (auto simp: js_set_def nth_append list_update_append)

lemma forEach_button_Cons:
  "forEach_button d rnd (btn # rest) index (prev, newLogs) =
     forEach_button d rnd rest (Suc index)
       (js_set prev index (gb_pressed btn),
        if gb_pressed btn \<and> \<not> truthy (js_get prev index)
        then newLogs @ [newEntry d (rnd (length newLogs)) index] else newLogs)"
proof -
  let ?prev1 = "if length prev \<le> index then js_set prev index False else prev"
  have t: "truthy (js_get ?prev1 index) = truthy (js_get prev index)"
    by (simp add: js_get_js_set truthy_def) (simp add: js_get_def)
  have s: "js_set ?prev1 index (gb_pressed btn) = js_set prev index (gb_pressed btn)"
    by (simp add: js_set_twice)
  show ?thesis
    unfolding forEach_button.simps Let_def t s ..
qed

lemma stamp_Nil: "stamp d rnd n [] = []" by (simp add: stamp_def)
lemma stamp_Cons: "stamp d rnd n (i # is) = newEntry d (rnd n) i # stamp d rnd (Suc n) is"
  by (simp add: stamp_def upt_rec)

lemma risingFrom_Nil: "risingFrom prev k [] = []" by (simp add: risingFrom_def)
lemma risingFrom_Cons: "risingFrom prev k (b # bs) =
   (if gb_pressed b \<and> \<not> truthy (js_get prev k) then [k] else []) @ risingFrom (js_set prev k v) (Suc k) bs"
proof -
  let ?ks = "[Suc k..<Suc (k + length bs)]"
  have F: "filter (\<lambda>(i, b). gb_pressed b \<and> \<not> truthy (js_get (js_set prev k v) i)) (zip ?ks bs)
      = filter (\<lambda>(i, b). gb_pressed b \<and> \<not> truthy (js_get prev i)) (zip ?ks bs)"
  proof (rule filter_cong)
    fix x assume "x \<in> set (zip ?ks bs)"
    moreover obtain i b where x: "x = (i, b)" by (cases x)
    ultimately have "(i, b) \<in> set (zip ?ks bs)" by simp
    then have "i \<in> set ?ks" by (rule set_zip_leftD)
    then have "fst x \<noteq> k" unfolding x set_upt by simp
    then show "(case x of (i, b) \<Rightarrow> gb_pressed b \<and> \<not> truthy (js_get (js_set prev k v) i))
             = (case x of (i, b) \<Rightarrow> gb_pressed b \<and> \<not> truthy (js_get prev i))"
      by (cases x) (simp add: js_get_js_set)
  qed simp
  have e: "[k..<k + length (b # bs)] = k # ?ks"
    by (simp add: upt_conv_Cons del: upt_Suc)
  have e': "[Suc k..<Suc k + length bs] = ?ks" by simp
  show ?thesis
    unfolding risingFrom_def e e' F by simp
qed

lemma snd_forEach_button:
  "snd (forEach_button d rnd bs k (prev, logs)) = logs @ stamp d rnd (length logs) (risingFrom prev k bs)"
proof (induction bs arbitrary: k prev logs)
  case Nil
  show ?case by (simp add: risingFrom_Nil stamp_Nil)
next
  case (Cons b bs)
  show ?case
    unfolding forEach_button_Cons
    by (simp add: Cons.IH risingFrom_Cons[where v = "gb_pressed b"] stamp_Cons stamp_Nil)
qed

lemma fst_forEach_button_get:
  "js_get (fst (forEach_button d rnd bs k (prev, logs))) i =
     (if k \<le> i \<and> i < k + length bs then Some (gb_pressed (bs ! (i - k))) else js_get prev i)"
proof (induction bs arbitrary: k prev logs)
  case Nil
  show ?case by auto
next
  case (Cons b bs)
  show ?case
    unfolding forEach_button_Cons
    by (auto simp: Cons.IH js_get_js_set nth_Cons' Suc_diff_le)
qed

lemma fst_forEach_button_length:
  "length (fst (forEach_button d rnd bs k (prev, logs))) =
     (if bs = [] then length prev else max (length prev) (k + length bs))"
proof (induction bs arbitrary: k prev logs)
  case Nil
  show ?case by simp
next
  case (Cons b bs)
  show ?case
    unfolding forEach_button_Cons
    by (auto simp: Cons.IH length_js_set)
qed

subsection \<open>Decimal rendering and entry ids\<close>

lemma digit_cases:
  "d < 10 \<Longrightarrow> d = 0 \<or> d = 1 \<or> d = 2 \<or> d = 3 \<or> d = 4 \<or> d = 5 \<or> d = 6 \<or> d = 7 \<or> d = 8 \<or> d = (9::nat)"
  by arith

lemma digit_char_inj: "a < 10 \<Longrightarrow> b < 10 \<Longrightarrow> digit_char a = digit_char b \<Longrightarrow> a = b"
  using digit_cases[of a] digit_cases[of b] by (auto simp: digit_char_def)

lemma digit_char_not_minus: "d < 10 \<Longrightarrow> digit_char d \<noteq> CHR ''-''"
  using digit_cases[of d] by (auto simp: digit_char_def)

lemma show_nat_not_Nil: "show_nat n \<noteq> []"
  by (subst show_nat.simps) simp

lemma minus_notin_show_nat: "CHR ''-'' \<notin> set (show_nat n)"
proof (induction n rule: show_nat.induct)
  case (1 n)
  show ?case
  proof (cases "n < 10")
    case True
    then show ?thesis
      using digit_char_not_minus[of n] by (subst show_nat.simps) auto
  next
    case False
    then show ?thesis
      using 1 digit_char_not_minus[of "n mod 10"] by (subst show_nat.simps) auto
  qed
qed

lemma show_nat_inj: "show_nat a = show_nat b \<Longrightarrow> a = b"
proof (induction a arbitrary: b rule: show_nat.induct)
  case (1 a)
  show ?case
  proof (cases "a < 10")
    case True
    show ?thesis
    proof (cases "b < 10")
      case b: True
      from "1.prems" True b have "digit_char a = digit_char b"
        by (simp add: show_nat.simps[of a] show_nat.simps[of b])
      with True b show ?thesis by (rule digit_char_inj)
    next
      case b: False
      from "1.prems" True b have "show_nat (b div 10) = []"
        by (simp add: show_nat.simps[of a] show_nat.simps[of b])
      then show ?thesis by (simp add: show_nat_not_Nil)
    qed
  next
    case False
    show ?thesis
    proof (cases "b < 10")
      case b: True
      from "1.prems" False b have "show_nat (a div 10) = []"
        by (simp add: show_nat.simps[of a] show_nat.simps[of b])
      then show ?thesis by (simp add: show_nat_not_Nil)
    next
      case b: False
      from "1.prems" False b
      have e: "show_nat (a div 10) = show_nat (b div 10)" and d: "digit_char (a mod 10) = digit_char (b mod 10)"
        by (simp_all add: show_nat.simps[of a] show_nat.simps[of b])
      from "1.IH"[OF False e] have "a div 10 = b div 10" .
      moreover from d have "a mod 10 = b mod 10" by (intro digit_char_inj) simp_all
      ultimately show ?thesis by (metis div_mult_mod_eq)
    qed
  qed
qed

lemma split_at_first:
  "x \<notin> set us \<Longrightarrow> x \<notin> set vs \<Longrightarrow> us @ x # xs = vs @ x # ys \<longleftrightarrow> us = vs \<and> xs = ys"
proof (induction us arbitrary: vs)
  case Nil
  then show ?case by (cases vs) auto
next
  case (Cons u us)
  then show ?case by (cases vs) auto
qed

lemma show_nat_dash_inj:
  "show_nat a @ CHR ''-'' # xs = show_nat b @ CHR ''-'' # ys \<longleftrightarrow> a = b \<and> xs = ys"
  using split_at_first[OF minus_notin_show_nat minus_notin_show_nat, of a xs b ys]
  by (auto dest: show_nat_inj)

lemma show_int_dash_inj:
  "show_int s @ CHR ''-'' # xs = show_int t @ CHR ''-'' # ys \<longleftrightarrow> s = t \<and> xs = ys"
proof -
  have mixed: "CHR ''-'' # us \<noteq> show_nat n @ vs" for us n vs
  proof
    assume "CHR ''-'' # us = show_nat n @ vs"
    moreover obtain c cs where "show_nat n = c # cs"
      using show_nat_not_Nil[of n] by (cases "show_nat n") auto
    ultimately have "CHR ''-'' \<in> set (show_nat n)" by simp
    then show False by (simp add: minus_notin_show_nat)
  qed
  show ?thesis
  proof (cases "s < 0"; cases "t < 0")
    assume "s < 0" "t < 0"
    then show ?thesis by (auto simp: show_int_def show_nat_dash_inj)
  next
    assume "s < 0" "\<not> t < 0"
    then show ?thesis using mixed[of "show_nat (nat (- s)) @ CHR ''-'' # xs" "nat t" "CHR ''-'' # ys"]
      by (auto simp: show_int_def)
  next
    assume "\<not> s < 0" "t < 0"
    then show ?thesis using mixed[of "show_nat (nat (- t)) @ CHR ''-'' # ys" "nat s" "CHR ''-'' # xs"]
      by (auto simp: show_int_def)
  next
    assume "\<not> s < 0" "\<not> t < 0"
    then show ?thesis by (auto simp: show_int_def show_nat_dash_inj)
  qed
qed

lemma entry_id_newEntry_eq:
  "entry_id (newEntry d r i) = entry_id (newEntry d' r' i') \<longleftrightarrow>
     getTime d = getTime d' \<and> i = i' \<and> r = r'"
  by (simp add: newEntry_def show_int_dash_inj show_nat_dash_inj)

subsection \<open>The entries of one frame\<close>


lemma zip_upt_nth: "zip [0..<length bs] bs = map (\<lambda>i. (i, bs ! i)) [0..<length bs]"
  by (rule nth_equalityI) simp_all

lemma risingFrom_0: "risingFrom prev 0 bs = risingEdges prev bs"
  by (simp add: risingFrom_def risingEdges_def zip_upt_nth filter_map comp_def)

lemma newLogs_of_stamp:
  "snd (selectGamepad (activeGamepadIndex st) (getGamepads f)) = Some gp \<Longrightarrow>
   newLogs_of st f = stamp (now f) (random f) 0 (risingEdges (prevButtonsRef st) (gp_buttons gp))"
  by (simp add: newLogs_of_def snd_forEach_button risingFrom_0)

lemma newEntry_for: "(\<exists>r. newEntry d r' j = newEntry d r i) \<longleftrightarrow> j = i"
proof
  assume "\<exists>r. newEntry d r' j = newEntry d r i"
  then obtain r where "newEntry d r' j = newEntry d r i" ..
  then have "entry_id (newEntry d r' j) = entry_id (newEntry d r i)" by simp
  then show "j = i" by (simp add: entry_id_newEntry_eq)
next
  assume "j = i"
  then show "\<exists>r. newEntry d r' j = newEntry d r i" by auto
qed

lemma entriesFor_stamp: "entriesFor d i (stamp d rnd n is) = length (filter (\<lambda>j. j = i) is)"
  by (induction "is" arbitrary: n) (simp_all add: entriesFor_def stamp_Nil stamp_Cons newEntry_for)

lemma count_filter_upt:
  "length (filter (\<lambda>j. j = i) (filter P [0..<n])) = (if i < n \<and> P i then 1 else 0)"
  by (induction n) auto

lemma entriesFor_risingEdges:
  "entriesFor d i (stamp d rnd n (risingEdges prev bs)) =
     (if i < length bs \<and> gb_pressed (bs ! i) \<and> \<not> truthy (js_get prev i) then 1 else 0)"
  unfolding entriesFor_stamp risingEdges_def by (rule count_filter_upt)

lemma set_stamp: "set (stamp d rnd n is) \<subseteq> {newEntry d r i | r i. i \<in> set is}"
proof (induction "is" arbitrary: n)
  case Nil
  show ?case by (simp add: stamp_Nil)
next
  case (Cons a "is")
  from Cons[of "Suc n"] show ?case unfolding stamp_Cons by fastforce
qed

lemma length_stamp: "length (stamp d rnd n is) = length is"
  by (simp add: stamp_def)


subsection \<open>Setter calls, effects and events\<close>

lemma apply_updates_Nil: "apply_updates st [] = st"
  by (simp add: apply_updates_def)

lemma apply_updates_Cons: "apply_updates st (u # us) = apply_updates (apply_update st u) us"
  by (simp add: apply_updates_def)

lemma apply_updates_append: "apply_updates st (us @ vs) = apply_updates (apply_updates st us) vs"
  by (simp add: apply_updates_def)

lemma prevButtonsRef_apply_update: "prevButtonsRef (apply_update st u) = prevButtonsRef st"
  by (cases u) simp_all

lemma listeners_apply_update: "listeners (apply_update st u) = listeners st"
  by (cases u) simp_all

lemma prevButtonsRef_apply_updates: "prevButtonsRef (apply_updates st us) = prevButtonsRef st"
  by (induction us arbitrary: st)
    (simp_all add: apply_updates_Nil apply_updates_Cons prevButtonsRef_apply_update)

lemma listeners_apply_updates: "listeners (apply_updates st us) = listeners st"
  by (induction us arbitrary: st)
    (simp_all add: apply_updates_Nil apply_updates_Cons listeners_apply_update)

lemma inputLog_apply_update: "\<not> writesLog u \<Longrightarrow> inputLog (apply_update st u) = inputLog st"
  by (cases u) simp_all

lemma inputLog_apply_updates:
  "\<not> list_ex writesLog us \<Longrightarrow> inputLog (apply_updates st us) = inputLog st"
  by (induction us arbitrary: st)
    (simp_all add: apply_updates_Nil apply_updates_Cons inputLog_apply_update)

lemma activeGamepadIndex_commit: "activeGamepadIndex (commit b s) = activeGamepadIndex s"
  by (simp add: commit_def apply_updates_def)

lemma commit_same: "activeGamepadIndex s = b \<Longrightarrow> commit b s = s"
  by (simp add: commit_def)

lemma commit_changed:
  "activeGamepadIndex s \<noteq> b \<Longrightarrow>
   inputLog (commit b s) = [] \<and> prevButtonsRef (commit b s) = freshTracker
   \<and> listeners (commit b s) = listeners s @ [activeGamepadIndex s]"
  by (simp add: commit_def apply_updates_def)

text \<open>Every event ends in the commit of some state.\<close>

lemma advance_is_commit: "\<exists>s. advance st e = commit (activeGamepadIndex st) s"
  by (cases e) (auto simp: advance_def split: prod.splits)

lemma advance_changed:
  assumes "activeGamepadIndex (advance st e) \<noteq> activeGamepadIndex st"
  shows "inputLog (advance st e) = [] \<and> prevButtonsRef (advance st e) = freshTracker"
proof -
  obtain s where s: "advance st e = commit (activeGamepadIndex st) s"
    using advance_is_commit by blast
  with assms have "activeGamepadIndex s \<noteq> activeGamepadIndex st"
    by (simp add: activeGamepadIndex_commit)
  then show ?thesis unfolding s by (simp add: commit_changed)
qed

text \<open>The three outcomes of the selection.\<close>

lemma selectGamepad_cases:
  obtains (keep) gp where "activeGamepad a gps = Some gp" "selectGamepad a gps = ([], Some gp)"
  | (detect) i gp where "activeGamepad a gps = None" "autoDetect gps 0 = Some (i, gp)"
      "selectGamepad a gps = ([SetActiveGamepadIndex (Some i)], Some gp)"
  | (none) "activeGamepad a gps = None" "autoDetect gps 0 = None" "selectGamepad a gps = ([], None)"
  by (cases "activeGamepad a gps"; cases "autoDetect gps 0") (auto simp: selectGamepad_def)

lemma scanGamepads_Some:
  assumes "selectGamepad (activeGamepadIndex st) (getGamepads f) = (sel, Some gp)"
  shows "scanGamepads st f =
    (sel @ [SetGamepadState (Some (mapGamepadToState gp))]
       @ (if newLogs_of st f = [] then []
          else [UpdateInputLog (\<lambda>prev. take 50 (newLogs_of st f @ prev))]),
     fst (forEach_button (now f) (random f) (gp_buttons gp) 0 (prevButtonsRef st, [])))"
  by (simp add: scanGamepads_def newLogs_of_def assms split_beta)

lemma scanGamepads_None:
  assumes "selectGamepad (activeGamepadIndex st) (getGamepads f) = (sel, None)"
  shows "scanGamepads st f =
    (sel @ [SetGamepadState None]
       @ (if activeGamepadIndex st \<noteq> None then [SetActiveGamepadIndex None] else []),
     prevButtonsRef st)"
  by (simp add: scanGamepads_def assms)

lemma newLogs_of_None:
  "snd (selectGamepad (activeGamepadIndex st) (getGamepads f)) = None \<Longrightarrow> newLogs_of st f = []"
  by (simp add: newLogs_of_def)

text \<open>The log and the active slot after a frame.\<close>

lemma activeGamepadIndex_advance_Tick:
  "activeGamepadIndex (advance st (Tick f)) =
     (case activeGamepad (activeGamepadIndex st) (getGamepads f) of
        Some gp \<Rightarrow> activeGamepadIndex st
      | None \<Rightarrow> map_option fst (autoDetect (getGamepads f) 0))"
proof (cases "activeGamepadIndex st" "getGamepads f" rule: selectGamepad_cases)
  case (keep gp)
  then show ?thesis
    by (simp add: advance_def scanGamepads_Some[OF keep(2)] activeGamepadIndex_commit apply_updates_def)
next
  case (detect i gp)
  then show ?thesis
    by (simp add: advance_def scanGamepads_Some[OF detect(3)] activeGamepadIndex_commit apply_updates_def)
next
  case none
  then show ?thesis
    by (simp add: advance_def scanGamepads_None[OF none(3)] activeGamepadIndex_commit apply_updates_def)
qed

lemma no_write_scan:
  "newLogs_of st f = [] \<Longrightarrow> \<not> list_ex writesLog (fst (scanGamepads st f))"
proof (cases "activeGamepadIndex st" "getGamepads f" rule: selectGamepad_cases)
  case (keep gp)
  assume "newLogs_of st f = []"
  then show ?thesis by (simp add: scanGamepads_Some[OF keep(2)])
next
  case (detect i gp)
  assume "newLogs_of st f = []"
  then show ?thesis by (simp add: scanGamepads_Some[OF detect(3)])
next
  case none
  then show ?thesis by (simp add: scanGamepads_None[OF none(3)])
qed

lemma advance_Tick_same:
  assumes "activeGamepadIndex (advance st (Tick f)) = activeGamepadIndex st"
  shows "inputLog (advance st (Tick f)) =
           (if newLogs_of st f = [] then inputLog st else take 50 (newLogs_of st f @ inputLog st))"
    and "prevButtonsRef (advance st (Tick f)) = snd (scanGamepads st f)"
proof -
  obtain us p where sc: "scanGamepads st f = (us, p)" by (cases "scanGamepads st f")
  let ?s = "apply_updates (st\<lparr>prevButtonsRef := p\<rparr>) us"
  have st: "advance st (Tick f) = commit (activeGamepadIndex st) ?s" by (simp add: advance_def sc)
  with assms have "activeGamepadIndex ?s = activeGamepadIndex st"
    by (simp add: activeGamepadIndex_commit)
  then have eq: "advance st (Tick f) = ?s" unfolding st by (rule commit_same)
  show "prevButtonsRef (advance st (Tick f)) = snd (scanGamepads st f)"
    unfolding eq by (simp add: prevButtonsRef_apply_updates sc)
  show "inputLog (advance st (Tick f)) =
           (if newLogs_of st f = [] then inputLog st else take 50 (newLogs_of st f @ inputLog st))"
  proof (cases "activeGamepadIndex st" "getGamepads f" rule: selectGamepad_cases)
    case (keep gp)
    from sc show ?thesis unfolding eq
      by (auto simp: scanGamepads_Some[OF keep(2)] apply_updates_def)
  next
    case (detect i gp)
    from sc show ?thesis unfolding eq
      by (auto simp: scanGamepads_Some[OF detect(3)] apply_updates_def)
  next
    case none
    from sc show ?thesis unfolding eq
      by (auto simp: scanGamepads_None[OF none(3)] apply_updates_def newLogs_of_None none(3))
  qed
qed

subsection \<open>Session reset\<close>

lemma advance_Tick_log_subset:
  "inputLog st = [] \<Longrightarrow> set (inputLog (advance st (Tick f))) \<subseteq> set (newLogs_of st f)"
proof (cases "activeGamepadIndex (advance st (Tick f)) = activeGamepadIndex st")
  case True
  assume "inputLog st = []"
  then show ?thesis
    using set_take_subset[of 50 "newLogs_of st f"] by (simp add: advance_Tick_same(1)[OF True])
next
  case False
  then show ?thesis by (simp add: advance_changed)
qed

lemma not_truthy_freshTracker: "\<not> truthy (js_get freshTracker i)"
  by (simp add: freshTracker_def js_get_def truthy_def)

subsection \<open>The tracker after a frame\<close>

lemma snd_scanGamepads:
  assumes "snd (selectGamepad (activeGamepadIndex st) (getGamepads f)) = Some gp"
  shows "snd (scanGamepads st f) =
     fst (forEach_button (now f) (random f) (gp_buttons gp) 0 (prevButtonsRef st, []))"
proof -
  obtain sel where "selectGamepad (activeGamepadIndex st) (getGamepads f) = (sel, Some gp)"
    using assms by (cases "selectGamepad (activeGamepadIndex st) (getGamepads f)") simp
  then show ?thesis by (simp add: scanGamepads_Some)
qed

subsection \<open>Rising edges\<close>

lemma truthy_Some: "truthy (Some b) = b"
  by (simp add: truthy_def)

subsection \<open>The batch of a frame and the log\<close>

lemma sorted_risingEdges: "sorted_wrt (<) (risingEdges prev bs)"
  unfolding risingEdges_def by (rule sorted_wrt_filter) simp

lemma scan_updates_batch:
  assumes "newLogs_of st f \<noteq> []"
  shows "\<exists>us. fst (scanGamepads st f) =
            us @ [UpdateInputLog (\<lambda>prev. take 50 (newLogs_of st f @ prev))]
          \<and> \<not> list_ex writesLog us"
proof (cases "activeGamepadIndex st" "getGamepads f" rule: selectGamepad_cases)
  case (keep gp)
  with assms show ?thesis by (simp add: scanGamepads_Some[OF keep(2)])
next
  case (detect i gp)
  with assms show ?thesis by (simp add: scanGamepads_Some[OF detect(3)])
next
  case none
  with assms show ?thesis by (simp add: newLogs_of_None)
qed

subsection \<open>Clearing the log\<close>

lemma advance_ClearLog: "advance st ClearLog = st\<lparr>inputLog := []\<rparr>"
  by (simp add: advance_def clearLog_def apply_updates_def commit_def)

lemma scanGamepads_reads:
  "activeGamepadIndex s = activeGamepadIndex t \<Longrightarrow> prevButtonsRef s = prevButtonsRef t \<Longrightarrow>
   scanGamepads s f = scanGamepads t f"
  by (simp only: scanGamepads_def)

lemma newLogs_of_reads:
  "activeGamepadIndex s = activeGamepadIndex t \<Longrightarrow> prevButtonsRef s = prevButtonsRef t \<Longrightarrow>
   newLogs_of s f = newLogs_of t f"
  by (simp only: newLogs_of_def)

subsection \<open>The bounded log\<close>

lemma no_write_onConnected: "\<not> list_ex writesLog (onConnected st k)"
  by (simp add: onConnected_def list_ex_iff)

lemma no_write_onDisconnected: "\<not> list_ex writesLog (onDisconnected st k)"
  by (simp add: onDisconnected_def list_ex_iff)

lemma advance_quiet_same:
  assumes "activeGamepadIndex (commit (activeGamepadIndex st) (apply_updates st us)) = activeGamepadIndex st"
    and "\<not> list_ex writesLog us"
  shows "inputLog (commit (activeGamepadIndex st) (apply_updates st us)) = inputLog st"
proof -
  from assms(1) have "activeGamepadIndex (apply_updates st us) = activeGamepadIndex st"
    by (simp add: activeGamepadIndex_commit)
  then have "commit (activeGamepadIndex st) (apply_updates st us) = apply_updates st us"
    by (rule commit_same)
  with assms(2) show ?thesis by (simp add: inputLog_apply_updates)
qed


text \<open>The log after any event.\<close>

lemma inputLog_advance:
  "inputLog (advance st e) =
     (if empties st e then []
      else if emitted st e = [] then inputLog st
      else take 50 (emitted st e @ inputLog st))"
proof (cases e)
  case (Tick f)
  show ?thesis
  proof (cases "activeGamepadIndex (advance st (Tick f)) = activeGamepadIndex st")
    case True
    then show ?thesis unfolding Tick by (simp add: advance_Tick_same(1))
  next
    case False
    then show ?thesis unfolding Tick by (simp add: advance_changed)
  qed
next
  case (GamepadConnected k)
  show ?thesis
  proof (cases "activeGamepadIndex (advance st e) = activeGamepadIndex st")
    case True
    then show ?thesis
      unfolding GamepadConnected
      using advance_quiet_same[where st = st and us = "onConnected st k", OF _ no_write_onConnected]
      by (simp add: advance_def)
  next
    case False
    then show ?thesis unfolding GamepadConnected by (simp add: advance_changed)
  qed
next
  case (GamepadDisconnected k)
  show ?thesis
  proof (cases "activeGamepadIndex (advance st e) = activeGamepadIndex st")
    case True
    then show ?thesis
      unfolding GamepadDisconnected
      using advance_quiet_same[where st = st and us = "onDisconnected st k", OF _ no_write_onDisconnected]
      by (simp add: advance_def)
  next
    case False
    then show ?thesis unfolding GamepadDisconnected by (simp add: advance_changed)
  qed
next
  case ClearLog
  then show ?thesis by (simp add: advance_ClearLog)
qed

lemma set_inputLog_advance: "set (inputLog (advance st e)) \<subseteq> set (emitted st e) \<union> set (inputLog st)"
  using set_take_subset[of 50 "emitted st e @ inputLog st"] by (auto simp: inputLog_advance)


lemma advances_Nil: "advances st [] = st"
  by (simp add: advances_def)

lemma advances_Cons: "advances st (e # es) = advances (advance st e) es"
  by (simp add: advances_def)



subsection \<open>Selecting the active slot\<close>

lemma js_at_Cons_Suc: "js_at (g # gs) (Suc k) = js_at gs k"
  by (simp add: js_at_def)

lemma js_at_Cons_0: "js_at (g # gs) 0 = Some g"
  by (simp add: js_at_def)

lemma slotConnected_Cons_Suc: "slotConnected (g # gs) (Suc k) = slotConnected gs k"
  by (simp add: slotConnected_def js_at_def)

lemma slotConnected_Cons_0:
  "slotConnected (g # gs) 0 = (case g of Some gp \<Rightarrow> gp_connected gp | None \<Rightarrow> False)"
  by (simp add: slotConnected_def js_at_def split: option.splits)

lemma slotConnected_Nil: "\<not> slotConnected [] k"
  by (simp add: slotConnected_def js_at_def)

lemma autoDetect_None: "autoDetect gs i = None \<Longrightarrow> \<not> slotConnected gs k"
proof (induction gs i arbitrary: k rule: autoDetect.induct)
  case (1 i)
  show ?case by (rule slotConnected_Nil)
next
  case (2 gs i)
  then show ?case by (cases k) (simp_all add: slotConnected_Cons_0 slotConnected_Cons_Suc)
next
  case (3 gp gs i)
  then show ?case
    by (cases k) (simp_all add: slotConnected_Cons_0 slotConnected_Cons_Suc split: if_splits)
qed

lemma autoDetect_Some:
  "autoDetect gs i = Some (j, gp) \<Longrightarrow>
   i \<le> j \<and> js_at gs (j - i) = Some (Some gp) \<and> gp_connected gp
   \<and> (\<forall>k < j - i. \<not> slotConnected gs k)"
proof (induction gs i rule: autoDetect.induct)
  case (1 i)
  then show ?case by simp
next
  case (2 gs i)
  then have ih: "Suc i \<le> j" "js_at gs (j - Suc i) = Some (Some gp)" "gp_connected gp"
    "\<forall>k < j - Suc i. \<not> slotConnected gs k"
    by simp_all
  from ih(1) have d: "j - i = Suc (j - Suc i)" by simp
  have "\<not> slotConnected (None # gs) k" if "k < j - i" for k
    using that ih(4) d by (cases k) (simp_all add: slotConnected_Cons_0 slotConnected_Cons_Suc)
  with ih show ?case by (simp add: d js_at_Cons_Suc)
next
  case (3 g gs i)
  show ?case
  proof (cases "gp_connected g")
    case True
    with 3 show ?thesis by (simp add: js_at_Cons_0)
  next
    case False
    with 3 have ih: "Suc i \<le> j" "js_at gs (j - Suc i) = Some (Some gp)" "gp_connected gp"
      "\<forall>k < j - Suc i. \<not> slotConnected gs k"
      by simp_all
    from ih(1) have d: "j - i = Suc (j - Suc i)" by simp
    have "\<not> slotConnected (Some g # gs) k" if "k < j - i" for k
      using that ih(4) d False by (cases k) (simp_all add: slotConnected_Cons_0 slotConnected_Cons_Suc)
    with ih show ?thesis by (simp add: d js_at_Cons_Suc)
  qed
qed

lemma activeGamepad_Some:
  "activeGamepad a gps = Some gp \<Longrightarrow>
   keepsActive a gps \<and> (\<exists>i. a = Some i \<and> js_at gps i = Some (Some gp)) \<and> gp_connected gp"
  by (auto simp: activeGamepad_def keepsActive_def slotConnected_def split: option.splits if_splits)

lemma activeGamepad_None: "activeGamepad a gps = None \<Longrightarrow> \<not> keepsActive a gps"
  by (auto simp: activeGamepad_def keepsActive_def slotConnected_def split: option.splits if_splits)

lemma gamepadState_commit: "gamepadState (commit b s) = gamepadState s"
  by (simp add: commit_def apply_updates_def)

lemma gamepadState_advance_Tick:
  "gamepadState (advance st (Tick f)) =
     map_option mapGamepadToState (snd (selectGamepad (activeGamepadIndex st) (getGamepads f)))"
proof (cases "activeGamepadIndex st" "getGamepads f" rule: selectGamepad_cases)
  case (keep gp)
  then show ?thesis
    by (simp add: advance_def scanGamepads_Some[OF keep(2)] gamepadState_commit apply_updates_def)
next
  case (detect i gp)
  then show ?thesis
    by (simp add: advance_def scanGamepads_Some[OF detect(3)] gamepadState_commit apply_updates_def)
next
  case none
  then show ?thesis
    by (simp add: advance_def scanGamepads_None[OF none(3)] gamepadState_commit apply_updates_def)
qed

subsection \<open>Entry ids and labels\<close>

lemma set_stamp_draws: "set (stamp d rnd n is) \<subseteq> {newEntry d (rnd k) i | k i. i \<in> set is}"
proof (induction "is" arbitrary: n)
  case Nil
  show ?case by (simp add: stamp_Nil)
next
  case (Cons a "is")
  from Cons[of "Suc n"] show ?case unfolding stamp_Cons by fastforce
qed

lemma distinct_ids_stamp: "distinct is \<Longrightarrow> distinct (map entry_id (stamp d rnd n is))"
proof (induction "is" arbitrary: n)
  case Nil
  show ?case by (simp add: stamp_Nil)
next
  case (Cons a "is")
  have "entry_id (newEntry d (rnd n) a) \<noteq> entry_id e" if "e \<in> set (stamp d rnd (Suc n) is)" for e
  proof -
    from that set_stamp[of d rnd "Suc n" "is"] obtain r i where "e = newEntry d r i" "i \<in> set is"
      by blast
    with Cons.prems show ?thesis by (auto simp: entry_id_newEntry_eq)
  qed
  with Cons show ?case by (auto simp: stamp_Cons)
qed

lemma distinct_risingEdges: "distinct (risingEdges prev bs)"
  by (simp add: risingEdges_def)

lemma distinct_ids_newLogs_of: "distinct (map entry_id (newLogs_of st f))"
proof (cases "snd (selectGamepad (activeGamepadIndex st) (getGamepads f))")
  case None
  then show ?thesis by (simp add: newLogs_of_None)
next
  case (Some gp)
  then show ?thesis by (simp add: newLogs_of_stamp distinct_ids_stamp distinct_risingEdges)
qed

lemma newLogs_of_made:
  "e \<in> set (newLogs_of st f) \<Longrightarrow> \<exists>k i. e = newEntry (now f) (random f k) i"
proof (cases "snd (selectGamepad (activeGamepadIndex st) (getGamepads f))")
  case None
  assume "e \<in> set (newLogs_of st f)"
  with None show ?thesis by (simp add: newLogs_of_None)
next
  case (Some gp)
  assume "e \<in> set (newLogs_of st f)"
  then have "e \<in> set (stamp (now f) (random f) 0 (risingEdges (prevButtonsRef st) (gp_buttons gp)))"
    by (simp add: newLogs_of_stamp[OF Some])
  with set_stamp_draws[of "now f" "random f" 0 "risingEdges (prevButtonsRef st) (gp_buttons gp)"]
  show ?thesis by blast
qed

lemma advances_snoc: "advances st (es @ [e]) = advance (advances st es) e"
  by (simp add: advances_def)

lemma ticks_append: "ticks (xs @ ys) = ticks xs @ ticks ys"
  by (induction xs rule: ticks.induct) simp_all

lemma separated_append:
  "separated (fs @ gs) \<longleftrightarrow>
     separated fs \<and> separated gs \<and> (\<forall>f \<in> set fs. \<forall>g \<in> set gs. separate f g)"
  by (induction fs) auto

lemma emitted_made:
  "x \<in> set (emitted st e) \<Longrightarrow> \<exists>g \<in> set (ticks [e]). \<exists>k i. x = newEntry (now g) (random g k) i"
  by (cases e) (auto dest: newLogs_of_made)

lemma log_entries_made:
  "x \<in> set (inputLog (advances mounted es)) \<Longrightarrow>
   \<exists>g \<in> set (ticks es). \<exists>k i. x = newEntry (now g) (random g k) i"
proof (induction es arbitrary: x rule: rev_induct)
  case Nil
  then show ?case by (simp add: advances_Nil mounted_def)
next
  case (snoc e es)
  from snoc.prems set_inputLog_advance[of "advances mounted es" e]
  have "x \<in> set (emitted (advances mounted es) e) \<or> x \<in> set (inputLog (advances mounted es))"
    unfolding advances_snoc by blast
  then show ?case
  proof
    assume "x \<in> set (emitted (advances mounted es) e)"
    from emitted_made[OF this] show ?thesis by (auto simp: ticks_append)
  next
    assume "x \<in> set (inputLog (advances mounted es))"
    from snoc.IH[OF this] show ?thesis by (auto simp: ticks_append)
  qed
qed

lemma distinct_ids_emitted: "distinct (map entry_id (emitted st e))"
  by (cases e) (simp_all add: distinct_ids_newLogs_of)

lemma separate_ids:
  "separate f g \<Longrightarrow> entry_id (newEntry (now f) (random f j) i) \<noteq> entry_id (newEntry (now g) (random g k) i')"
  by (auto simp: separate_def entry_id_newEntry_eq)

lemma log_ids_distinct:
  "separated (ticks es) \<Longrightarrow> distinct (map entry_id (inputLog (advances mounted es)))"
proof (induction es rule: rev_induct)
  case Nil
  show ?case by (simp add: advances_Nil mounted_def)
next
  case (snoc e es)
  let ?st = "advances mounted es"
  from snoc.prems have sep: "separated (ticks es)" and new: "\<forall>f \<in> set (ticks es). \<forall>g \<in> set (ticks [e]). separate f g"
    by (auto simp: ticks_append separated_append)
  from snoc.IH[OF sep] have old: "distinct (map entry_id (inputLog ?st))" .
  have "entry_id x \<noteq> entry_id y" if "x \<in> set (emitted ?st e)" "y \<in> set (inputLog ?st)" for x y
  proof -
    from emitted_made[OF that(1)] obtain g k i where g: "g \<in> set (ticks [e])" "x = newEntry (now g) (random g k) i"
      by blast
    from log_entries_made[OF that(2)] obtain f j i' where f: "f \<in> set (ticks es)" "y = newEntry (now f) (random f j) i'"
      by blast
    from new f(1) g(1) have "separate f g" by blast
    from separate_ids[OF this] show ?thesis unfolding g f by metis
  qed
  with old distinct_ids_emitted[of ?st e]
  have "distinct (map entry_id (emitted ?st e @ inputLog ?st))" by auto
  then have "distinct (take 50 (map entry_id (emitted ?st e @ inputLog ?st)))"
    by (rule distinct_take)
  then have "distinct (map entry_id (take 50 (emitted ?st e @ inputLog ?st)))"
    by (simp only: take_map)
  with old show ?case unfolding advances_snoc by (simp add: inputLog_advance)
qed

lemma BUTTON_MAP_None: "BUTTON_MAP i = None \<longleftrightarrow> 17 < i"
proof -
  have "BUTTON_MAP i = None \<longleftrightarrow> i \<notin> {0, 1, 2, 3, 4, 5, 6, 7, 8, 9, 10, 11, 12, 13, 14, 15, 16, 17}"
    unfolding BUTTON_MAP_def map_of_eq_None_iff by simp
  also have "\<dots> \<longleftrightarrow> 17 < i" by (simp only: insert_iff empty_iff) arith
  finally show ?thesis .
qed

lemma BUTTON_MAP_not_empty: "BUTTON_MAP i \<noteq> Some []"
  by (simp add: BUTTON_MAP_def)

lemma btnName_table:
  "btnName i = (case BUTTON_MAP i of Some s \<Rightarrow> s | None \<Rightarrow> ''Button '' @ show_nat i)"
  using BUTTON_MAP_not_empty[of i] by (simp add: btnName_def split: option.splits)

subsection \<open>The data panel on a short button array\<close>

lemma axisOrZero_short: "length (axes gs) \<le> axis_index a \<Longrightarrow> axisOrZero gs a = 0"
  by (simp add: axisOrZero_def js_at_def)

subsection \<open>The render and live runs\<close>

lemma renderPanel_None: "renderPanel None = Inr None"
  by (simp add: renderPanel_def)

lemma renderPanel_eight:
  "8 \<le> length (gp_buttons gp) \<Longrightarrow> \<exists>p. renderPanel (Some (mapGamepadToState gp)) = Inr p"
  by (simp add: renderPanel_def triggerValue_def js_at_def mapGamepadToState_def)

lemma renderPanel_short:
  "length (gp_buttons gp) < 8 \<Longrightarrow> renderPanel (Some (mapGamepadToState gp)) = Inl TypeError"
  by (simp add: renderPanel_def triggerValue_def js_at_def mapGamepadToState_def)

lemma gamepadState_callback: "gamepadState (callback st e) = gamepadState (advance st e)"
  by (simp add: advance_def gamepadState_commit)

lemma step_Inr: "step st e = Inr s \<Longrightarrow> s = advance st e"
  by (auto simp: step_def split: sum.splits)

lemma step_live:
  "renderPanel (gamepadState (advance st e)) = Inr p \<Longrightarrow> step st e = Inr (advance st e)"
  by (simp add: step_def gamepadState_callback)

lemma step_thrown:
  "renderPanel (gamepadState (advance st e)) = Inl err \<Longrightarrow> step st e = Inl err"
  by (simp add: step_def gamepadState_callback)

lemma step_Tick_eight:
  assumes "snd (selectGamepad (activeGamepadIndex st) (getGamepads f)) = Some gp"
    and "8 \<le> length (gp_buttons gp)"
  shows "step st (Tick f) = Inr (advance st (Tick f))"
proof -
  from renderPanel_eight[OF assms(2)] obtain p where "renderPanel (Some (mapGamepadToState gp)) = Inr p" ..
  then show ?thesis by (intro step_live[of _ _ p]) (simp add: gamepadState_advance_Tick assms(1))
qed

lemma step_Tick_none:
  assumes "snd (selectGamepad (activeGamepadIndex st) (getGamepads f)) = None"
  shows "step st (Tick f) = Inr (advance st (Tick f))"
  by (intro step_live[of _ _ None]) (simp add: gamepadState_advance_Tick assms renderPanel_None)

lemma run_Inr: "run st es = Inr s \<Longrightarrow> s = advances st es"
proof (induction es arbitrary: st)
  case Nil
  then show ?case by (simp add: advances_Nil)
next
  case (Cons e es)
  then show ?case
    by (auto simp: advances_Cons split: sum.splits dest: step_Inr)
qed

lemma run_live2:
  "step st e = Inr s \<Longrightarrow> step s e' = Inr s' \<Longrightarrow> run st [e, e'] = Inr s'"
  by simp

subsection \<open>The example session\<close>

lemma risingFrom_Cons_plain:
  "risingFrom prev k (b # bs) =
     (if gb_pressed b \<and> \<not> truthy (js_get prev k) then [k] else []) @ risingFrom prev (Suc k) bs"
proof -
  have e: "[k..<k + length (b # bs)] = k # [Suc k..<Suc k + length bs]"
    by (simp add: upt_conv_Cons del: upt_Suc)
  show ?thesis unfolding risingFrom_def e by simp
qed

lemmas risingEdges_eval = risingFrom_0[symmetric] risingFrom_Cons_plain risingFrom_Nil

lemma stamp_const: "stamp d (\<lambda>k. r) n is = map (newEntry d r) is"
  by (induction "is" arbitrary: n) (simp_all add: stamp_Nil stamp_Cons)

lemma length_pad8: "length (gp_buttons (pad8 k a b)) = 8"
  by (simp add: pad8_def pad_def)

lemma risingEdges_pad8:
  "risingEdges prev (gp_buttons (pad8 k a b)) =
     (if a \<and> \<not> truthy (js_get prev 0) then [0] else [])
     @ (if b \<and> \<not> truthy (js_get prev (Suc 0)) then [Suc 0] else [])"
  by (simp add: risingEdges_eval pad8_def pad_def)

lemma below_eight:
  "i < 8 \<Longrightarrow> i = 0 \<or> i = 1 \<or> i = 2 \<or> i = 3 \<or> i = 4 \<or> i = 5 \<or> i = 6 \<or> i = (7::nat)"
  by arith

lemma pressed_pad8:
  "i < 8 \<Longrightarrow> gb_pressed (gp_buttons (pad8 k a b) ! i) = (if i = 0 then a else if i = 1 then b else False)"
  using below_eight[of i] by (auto simp: pad8_def pad_def)

lemma select_pad8_keep:
  "selectGamepad (Some 0) (Some (pad8 0 a b) # gps) = ([], Some (pad8 0 a b))"
  by (simp add: selectGamepad_def activeGamepad_def js_at_def pad8_def pad_def)

lemma select_pad8_detect:
  "selectGamepad None (Some (pad8 0 a b) # gps) = ([SetActiveGamepadIndex (Some 0)], Some (pad8 0 a b))"
  by (simp add: selectGamepad_def activeGamepad_def pad8_def pad_def)

text \<open>A frame on the eight-button gamepad of slot 0 while slot 0 is active.\<close>

lemma pad8_frame:
  fixes st :: App and t :: int and a b :: bool and gps :: "Gamepad option list" and i :: nat
  assumes "activeGamepadIndex st = Some 0"
  defines "f \<equiv> frameAt t (Some (pad8 0 a b) # gps)"
  shows "step st (Tick f) = Inr (advance st (Tick f))"
    and "activeGamepadIndex (advance st (Tick f)) = Some 0"
    and "newLogs_of st f =
          map (newEntry (clock t) ''0.5'') (risingEdges (prevButtonsRef st) (gp_buttons (pad8 0 a b)))"
    and "inputLog (advance st (Tick f)) =
          (if newLogs_of st f = [] then inputLog st else take 50 (newLogs_of st f @ inputLog st))"
    and "truthy (js_get (prevButtonsRef (advance st (Tick f))) i) =
          (if i = 0 then a else if i = 1 then b else if i < 8 then False
           else truthy (js_get (prevButtonsRef st) i))"
    and "length (prevButtonsRef (advance st (Tick f))) = max (length (prevButtonsRef st)) 8"
proof -
  have sel: "snd (selectGamepad (activeGamepadIndex st) (getGamepads f)) = Some (pad8 0 a b)"
    by (simp add: assms(1) f_def frameAt_def select_pad8_keep)
  show "step st (Tick f) = Inr (advance st (Tick f))"
    using sel by (rule step_Tick_eight) (simp add: length_pad8)
  show same: "activeGamepadIndex (advance st (Tick f)) = Some 0"
    by (simp add: activeGamepadIndex_advance_Tick assms(1) f_def frameAt_def activeGamepad_def js_at_def
        pad8_def pad_def)
  then have same': "activeGamepadIndex (advance st (Tick f)) = activeGamepadIndex st"
    by (simp add: assms(1))
  show "newLogs_of st f =
          map (newEntry (clock t) ''0.5'') (risingEdges (prevButtonsRef st) (gp_buttons (pad8 0 a b)))"
    by (simp add: newLogs_of_stamp[OF sel]) (simp add: f_def frameAt_def stamp_const)
  show "inputLog (advance st (Tick f)) =
          (if newLogs_of st f = [] then inputLog st else take 50 (newLogs_of st f @ inputLog st))"
    by (rule advance_Tick_same(1)[OF same'])
  have p: "prevButtonsRef (advance st (Tick f)) =
      fst (forEach_button (now f) (random f) (gp_buttons (pad8 0 a b)) 0 (prevButtonsRef st, []))"
    by (simp add: advance_Tick_same(2)[OF same'] snd_scanGamepads[OF sel])
  show "truthy (js_get (prevButtonsRef (advance st (Tick f))) i) =
          (if i = 0 then a else if i = 1 then b else if i < 8 then False
           else truthy (js_get (prevButtonsRef st) i))"
    unfolding p fst_forEach_button_get by (simp add: length_pad8 pressed_pad8 truthy_def)
  show "length (prevButtonsRef (advance st (Tick f))) = max (length (prevButtonsRef st)) 8"
    unfolding p fst_forEach_button_length by (simp add: length_pad8) (simp add: pad8_def pad_def)
qed

text \<open>The frame that detects it.\<close>

lemma pad8_detect:
  fixes st :: App and t :: int and a b :: bool and gps :: "Gamepad option list"
  assumes "activeGamepadIndex st = None"
  defines "f \<equiv> frameAt t (Some (pad8 0 a b) # gps)"
  shows "step st (Tick f) = Inr (advance st (Tick f))"
    and "activeGamepadIndex (advance st (Tick f)) = Some 0"
    and "inputLog (advance st (Tick f)) = []"
    and "prevButtonsRef (advance st (Tick f)) = freshTracker"
proof -
  have sel: "snd (selectGamepad (activeGamepadIndex st) (getGamepads f)) = Some (pad8 0 a b)"
    by (simp add: assms(1) f_def frameAt_def select_pad8_detect)
  show "step st (Tick f) = Inr (advance st (Tick f))"
    using sel by (rule step_Tick_eight) (simp add: length_pad8)
  show a: "activeGamepadIndex (advance st (Tick f)) = Some 0"
    by (simp add: activeGamepadIndex_advance_Tick assms(1) f_def frameAt_def activeGamepad_def
        pad8_def pad_def)
  then have "activeGamepadIndex (advance st (Tick f)) \<noteq> activeGamepadIndex st"
    by (simp add: assms(1))
  from advance_changed[OF this]
  show "inputLog (advance st (Tick f)) = []" "prevButtonsRef (advance st (Tick f)) = freshTracker"
    by simp_all
qed

lemma detected_facts:
  "step mounted (Tick idle) = Inr detected"
  "activeGamepadIndex detected = Some 0"
  "inputLog detected = []"
  "prevButtonsRef detected = freshTracker"
  using pad8_detect[of mounted 1 False False "[]"]
  by (simp_all add: detected_def idle_def mounted_def)

lemma held_facts:
  "step detected (Tick press0) = Inr held"
  "run mounted [Tick idle, Tick press0] = Inr held"
  "activeGamepadIndex held = Some 0"
  "inputLog held = [newEntry (clock 2) ''0.5'' 0]"
  "truthy (js_get (prevButtonsRef held) i) = (i = 0)"
  "length (prevButtonsRef held) = 20"
proof -
  note f = pad8_frame[OF detected_facts(2), of 2 True False "[]", folded press0_def held_def]
  show s: "step detected (Tick press0) = Inr held" by (rule f(1))
  show "run mounted [Tick idle, Tick press0] = Inr held"
    using detected_facts(1) s by (rule run_live2)
  show "activeGamepadIndex held = Some 0" by (rule f(2))
  have n: "newLogs_of detected press0 = [newEntry (clock 2) ''0.5'' 0]"
    unfolding f(3) by (simp add: risingEdges_pad8 detected_facts(4) not_truthy_freshTracker)
  show "inputLog held = [newEntry (clock 2) ''0.5'' 0]"
    unfolding f(4) n by (simp add: detected_facts(3))
  show "truthy (js_get (prevButtonsRef held) i) = (i = 0)"
    unfolding f(5) by (auto simp: detected_facts(4) not_truthy_freshTracker)
  show "length (prevButtonsRef held) = 20"
    unfolding f(6) by (simp add: detected_facts(4) freshTracker_def)
qed

section \<open>The properties\<close>

subsection \<open>Rising edges\<close>

text \<open>
  C1. In a frame whose current gamepad is \<open>gp\<close>, the entries pushed for button \<open>i\<close> are
  exactly one when \<open>i\<close> is a button of the snapshot that is pressed while the tracker's
  slot for \<open>i\<close> is not true, and none otherwise (pressed and already true, released,
  or not a button of the snapshot); no other entries are pushed. Over two frames of one
  session: the second frame pushes exactly one entry for a button that the first frame
  saw released and the second sees pressed, and none for a button that stays pressed,
  stays released or is released.
\<close>

theorem entry_iff_rising_edge:
  assumes "snd (selectGamepad (activeGamepadIndex st) (getGamepads f)) = Some gp"
  shows "entriesFor (now f) i (newLogs_of st f) =
           (if i < length (gp_buttons gp) \<and> gb_pressed (gp_buttons gp ! i)
               \<and> \<not> truthy (js_get (prevButtonsRef st) i)
            then 1 else 0)
       \<and> length (newLogs_of st f) = length (risingEdges (prevButtonsRef st) (gp_buttons gp))
       \<and> (step st (Tick f) = Inr st' \<and> activeGamepadIndex st' = activeGamepadIndex st
            \<and> snd (selectGamepad (activeGamepadIndex st') (getGamepads f')) = Some gp'
            \<and> i < length (gp_buttons gp) \<longrightarrow>
          entriesFor (now f') i (newLogs_of st' f') =
            (if i < length (gp_buttons gp') \<and> gb_pressed (gp_buttons gp' ! i)
                \<and> \<not> gb_pressed (gp_buttons gp ! i)
             then 1 else 0))"
proof (intro conjI impI)
  show "entriesFor (now f) i (newLogs_of st f) =
           (if i < length (gp_buttons gp) \<and> gb_pressed (gp_buttons gp ! i)
               \<and> \<not> truthy (js_get (prevButtonsRef st) i)
            then 1 else 0)"
    by (simp add: newLogs_of_stamp[OF assms] entriesFor_risingEdges)
  show "length (newLogs_of st f) = length (risingEdges (prevButtonsRef st) (gp_buttons gp))"
    by (simp add: newLogs_of_stamp[OF assms] length_stamp)
next
  assume a: "step st (Tick f) = Inr st' \<and> activeGamepadIndex st' = activeGamepadIndex st
            \<and> snd (selectGamepad (activeGamepadIndex st') (getGamepads f')) = Some gp'
            \<and> i < length (gp_buttons gp)"
  then have st': "st' = advance st (Tick f)" by (blast dest: step_Inr)
  from a have same: "activeGamepadIndex (advance st (Tick f)) = activeGamepadIndex st"
    and sel: "snd (selectGamepad (activeGamepadIndex st') (getGamepads f')) = Some gp'"
    and i: "i < length (gp_buttons gp)"
    unfolding st' by blast+
  have "js_get (prevButtonsRef st') i = Some (gb_pressed (gp_buttons gp ! i))"
    unfolding st' using i
    by (simp add: advance_Tick_same(2)[OF same] snd_scanGamepads[OF assms] fst_forEach_button_get)
  then show "entriesFor (now f') i (newLogs_of st' f') =
            (if i < length (gp_buttons gp') \<and> gb_pressed (gp_buttons gp' ! i)
                \<and> \<not> gb_pressed (gp_buttons gp ! i)
             then 1 else 0)"
    by (simp add: newLogs_of_stamp[OF sel] entriesFor_risingEdges truthy_Some)
qed

theorem entry_iff_rising_edge_witness:
  "run mounted [Tick idle, Tick press0] = Inr held
   \<and> entriesFor (clock 2) 0 (newLogs_of detected press0) = 1
   \<and> entriesFor (clock 2) 1 (newLogs_of detected press0) = 0
   \<and> entriesFor (clock 3) 0 (newLogs_of held press01) = 0
   \<and> entriesFor (clock 3) 1 (newLogs_of held press01) = 1
   \<and> entriesFor (clock 3) 0 (newLogs_of held release0) = 0"
proof -
  have sel2: "snd (selectGamepad (activeGamepadIndex detected) (getGamepads press0)) = Some (pad8 0 True False)"
    by (simp add: detected_facts(2) press0_def frameAt_def select_pad8_keep)
  have sel3: "snd (selectGamepad (activeGamepadIndex held) (getGamepads press01)) = Some (pad8 0 True True)"
    by (simp add: held_facts(3) press01_def frameAt_def select_pad8_keep)
  have sel4: "snd (selectGamepad (activeGamepadIndex held) (getGamepads release0)) = Some (pad8 0 False False)"
    by (simp add: held_facts(3) release0_def frameAt_def select_pad8_keep)
  have same: "activeGamepadIndex held = activeGamepadIndex detected"
    by (simp add: held_facts(3) detected_facts(2))
  have n: "now press0 = clock 2" "now press01 = clock 3" "now release0 = clock 3"
    by (simp_all add: press0_def press01_def release0_def frameAt_def)
  show ?thesis
    using entry_iff_rising_edge[OF sel2, of 0 held press01 "pad8 0 True True"]
      entry_iff_rising_edge[OF sel2, of 1 held press01 "pad8 0 True True"]
      entry_iff_rising_edge[OF sel2, of 0 held release0 "pad8 0 False False"]
      held_facts(1,2) same sel3 sel4
    by (simp add: n length_pad8 pressed_pad8 detected_facts(4) not_truthy_freshTracker)
qed

subsection \<open>Session reset\<close>

text \<open>
  C3. Whatever the event (a frame, a connect or disconnect notification, a click), when
  it changes the active slot the state it leaves has the fresh all-false tracker and an
  empty log: the next frame reads no true slot in the tracker, and the log after it
  holds nothing but entries of that frame. The example goes from none to slot 0, from
  slot 0 to none, and from slot 0 to slot 1, on gamepads with eight buttons.
\<close>

theorem slot_change_resets_tracker_and_log:
  assumes "step st e = Inr st'" and "activeGamepadIndex st' \<noteq> activeGamepadIndex st"
  shows "prevButtonsRef st' = freshTracker
       \<and> inputLog st' = []
       \<and> \<not> truthy (js_get (prevButtonsRef st') i)
       \<and> (step st' (Tick f) = Inr st'' \<longrightarrow> set (inputLog st'') \<subseteq> set (newLogs_of st' f))"
proof -
  from assms(1) have st': "st' = advance st e" by (rule step_Inr)
  from assms(2) have r: "inputLog st' = []" "prevButtonsRef st' = freshTracker"
    unfolding st' by (simp_all add: advance_changed)
  have "set (inputLog st'') \<subseteq> set (newLogs_of st' f)" if "step st' (Tick f) = Inr st''"
    using advance_Tick_log_subset[OF r(1), of f] step_Inr[OF that] by simp
  with r show ?thesis by (simp add: not_truthy_freshTracker)
qed

theorem slot_change_resets_witness:
  "step mounted (Tick idle) = Inr detected
   \<and> activeGamepadIndex mounted = None \<and> activeGamepadIndex detected = Some 0
   \<and> prevButtonsRef detected = freshTracker \<and> inputLog detected = []
   \<and> run mounted [Tick idle, Tick press0] = Inr held
   \<and> inputLog held \<noteq> [] \<and> truthy (js_get (prevButtonsRef held) 0)
   \<and> step held (Tick gone) = Inr (advance held (Tick gone))
   \<and> activeGamepadIndex (advance held (Tick gone)) = None
   \<and> prevButtonsRef (advance held (Tick gone)) = freshTracker
   \<and> inputLog (advance held (Tick gone)) = []
   \<and> step held (Tick swapQuiet) = Inr (advance held (Tick swapQuiet))
   \<and> activeGamepadIndex (advance held (Tick swapQuiet)) = Some 1
   \<and> prevButtonsRef (advance held (Tick swapQuiet)) = freshTracker
   \<and> inputLog (advance held (Tick swapQuiet)) = []"
proof -
  have m: "activeGamepadIndex mounted = None" by (simp add: mounted_def)
  have c1: "activeGamepadIndex detected \<noteq> activeGamepadIndex mounted"
    by (simp add: detected_facts(2) m)
  have selg: "snd (selectGamepad (activeGamepadIndex held) (getGamepads gone)) = None"
    by (simp add: held_facts(3) gone_def frameAt_def selectGamepad_def activeGamepad_def js_at_def
        unplugged_def pad8_def pad_def)
  have sg: "step held (Tick gone) = Inr (advance held (Tick gone))"
    using selg by (rule step_Tick_none)
  have ag: "activeGamepadIndex (advance held (Tick gone)) = None"
    by (simp add: activeGamepadIndex_advance_Tick held_facts(3) gone_def frameAt_def activeGamepad_def
        js_at_def unplugged_def pad8_def pad_def)
  then have c2: "activeGamepadIndex (advance held (Tick gone)) \<noteq> activeGamepadIndex held"
    by (simp add: held_facts(3))
  have sels: "snd (selectGamepad (activeGamepadIndex held) (getGamepads swapQuiet)) = Some (pad8 1 False False)"
    by (simp add: held_facts(3) swapQuiet_def frameAt_def selectGamepad_def activeGamepad_def js_at_def
        unplugged_def pad8_def pad_def)
  have ss: "step held (Tick swapQuiet) = Inr (advance held (Tick swapQuiet))"
    using sels by (rule step_Tick_eight) (simp add: length_pad8)
  have as: "activeGamepadIndex (advance held (Tick swapQuiet)) = Some 1"
    by (simp add: activeGamepadIndex_advance_Tick held_facts(3) swapQuiet_def frameAt_def activeGamepad_def
        js_at_def unplugged_def pad8_def pad_def)
  then have c3: "activeGamepadIndex (advance held (Tick swapQuiet)) \<noteq> activeGamepadIndex held"
    by (simp add: held_facts(3))
  show ?thesis
    using slot_change_resets_tracker_and_log[OF detected_facts(1) c1, of 0 idle detected]
      slot_change_resets_tracker_and_log[OF sg c2, of 0 idle detected]
      slot_change_resets_tracker_and_log[OF ss c3, of 0 idle detected]
      detected_facts held_facts(2,4,5) m sg ag ss as
    by simp
qed

subsection \<open>The tracker after a frame\<close>

text \<open>
  C6. After the \<^verbatim>\<open>forEach\<close> of a frame with current gamepad \<open>gp\<close>, the tracker holds the
  pressed flag of every button of the snapshot, keeps its other slots, and has grown to
  the snapshot's button count when that is larger; a released button gets no entry; a
  button whose slot was empty (past the end of the tracker) is handled as if the slot
  were false: an entry exactly when it is pressed. When the frame keeps the active slot,
  this tracker is the one the next frame starts from.
\<close>

theorem tracker_follows_snapshot:
  assumes "snd (selectGamepad (activeGamepadIndex st) (getGamepads f)) = Some gp"
  shows "(\<forall>i < length (gp_buttons gp).
            js_get (snd (scanGamepads st f)) i = Some (gb_pressed (gp_buttons gp ! i)))
       \<and> (\<forall>i \<ge> length (gp_buttons gp).
            js_get (snd (scanGamepads st f)) i = js_get (prevButtonsRef st) i)
       \<and> length (snd (scanGamepads st f)) = max (length (prevButtonsRef st)) (length (gp_buttons gp))
       \<and> (\<forall>i < length (gp_buttons gp). \<not> gb_pressed (gp_buttons gp ! i) \<longrightarrow>
            entriesFor (now f) i (newLogs_of st f) = 0)
       \<and> (\<forall>i < length (gp_buttons gp). js_get (prevButtonsRef st) i = None \<longrightarrow>
            entriesFor (now f) i (newLogs_of st f) = (if gb_pressed (gp_buttons gp ! i) then 1 else 0))
       \<and> (step st (Tick f) = Inr st' \<and> activeGamepadIndex st' = activeGamepadIndex st \<longrightarrow>
            prevButtonsRef st' = snd (scanGamepads st f))"
proof -
  have "prevButtonsRef st' = snd (scanGamepads st f)"
    if "step st (Tick f) = Inr st'" "activeGamepadIndex st' = activeGamepadIndex st"
    using that advance_Tick_same(2)[of st f] by (auto dest!: step_Inr)
  then show ?thesis
    by (auto simp: snd_scanGamepads[OF assms] fst_forEach_button_get fst_forEach_button_length
      newLogs_of_stamp[OF assms] entriesFor_risingEdges truthy_def)
qed

theorem tracker_follows_snapshot_witness:
  "run mounted [Tick idle, Tick press0] = Inr held
   \<and> js_get (snd (scanGamepads held (frameAt 3 [Some (pad8 0 False True)]))) 0 = Some False
   \<and> js_get (snd (scanGamepads held (frameAt 3 [Some (pad8 0 False True)]))) 1 = Some True
   \<and> entriesFor (clock 3) 0 (newLogs_of held (frameAt 3 [Some (pad8 0 False True)])) = 0
   \<and> step held (Tick (frameAt 3 [Some (pad8 0 False True)]))
        = Inr (advance held (Tick (frameAt 3 [Some (pad8 0 False True)])))
   \<and> prevButtonsRef (advance held (Tick (frameAt 3 [Some (pad8 0 False True)])))
        = snd (scanGamepads held (frameAt 3 [Some (pad8 0 False True)]))
   \<and> length (snd (scanGamepads held (frameAt 3 [Some pad21]))) = 21
   \<and> js_get (snd (scanGamepads held (frameAt 3 [Some pad21]))) 20 = Some True
   \<and> entriesFor (clock 3) 20 (newLogs_of held (frameAt 3 [Some pad21])) = 1"
proof -
  let ?f = "frameAt 3 [Some (pad8 0 False True)]" and ?g = "frameAt 3 [Some pad21]"
  have a: "snd (selectGamepad (activeGamepadIndex held) (getGamepads ?f)) = Some (pad8 0 False True)"
    by (simp add: held_facts(3) frameAt_def select_pad8_keep)
  have b: "snd (selectGamepad (activeGamepadIndex held) (getGamepads ?g)) = Some pad21"
    by (simp add: held_facts(3) frameAt_def selectGamepad_def activeGamepad_def js_at_def pad21_def pad_def)
  have l: "length (gp_buttons pad21) = 21" "gb_pressed (gp_buttons pad21 ! 20)"
    by (simp_all add: pad21_def pad_def nth_append)
  have p: "js_get (prevButtonsRef held) 20 = None"
    by (simp add: js_get_def held_facts(6))
  have n: "now ?f = clock 3" "now ?g = clock 3" by (simp_all add: frameAt_def)
  note f = pad8_frame[OF held_facts(3), of 3 False True "[]"]
  have same: "activeGamepadIndex (advance held (Tick ?f)) = activeGamepadIndex held"
    by (simp add: f(2) held_facts(3))
  show ?thesis
    using tracker_follows_snapshot[OF a, of "advance held (Tick ?f)"]
      tracker_follows_snapshot[OF b, of held] l p n f(1) same held_facts(2,6)
    by (simp add: length_pad8 pressed_pad8)
qed

subsection \<open>The batch of a frame and the log\<close>

text \<open>
  C7. The entries of one frame are made for the rising edges in ascending button index,
  in that order; \<^verbatim>\<open>scanGamepads\<close> ends with the one log update that puts the whole batch
  in front of the previous log and then keeps the first 50; so, when the frame keeps the
  active slot, the log is the batch, followed by the earlier entries, cut at 50.
\<close>

theorem batch_ascending_and_prepended:
  assumes "snd (selectGamepad (activeGamepadIndex st) (getGamepads f)) = Some gp"
  shows "newLogs_of st f =
           stamp (now f) (random f) 0 (risingEdges (prevButtonsRef st) (gp_buttons gp))
       \<and> sorted_wrt (<) (risingEdges (prevButtonsRef st) (gp_buttons gp))
       \<and> (newLogs_of st f \<noteq> [] \<longrightarrow>
            (\<exists>us. fst (scanGamepads st f) =
                    us @ [UpdateInputLog (\<lambda>prev. take 50 (newLogs_of st f @ prev))]
                  \<and> \<not> list_ex writesLog us))
       \<and> (newLogs_of st f \<noteq> [] \<and> step st (Tick f) = Inr st'
            \<and> activeGamepadIndex st' = activeGamepadIndex st \<longrightarrow>
            inputLog st' = take 50 (newLogs_of st f @ inputLog st))"
proof -
  have "inputLog st' = take 50 (newLogs_of st f @ inputLog st)"
    if "newLogs_of st f \<noteq> []" "step st (Tick f) = Inr st'" "activeGamepadIndex st' = activeGamepadIndex st"
    using that advance_Tick_same(1)[of st f] by (auto dest!: step_Inr)
  then show ?thesis
    using scan_updates_batch[of st f]
    by (simp add: newLogs_of_stamp[OF assms] sorted_risingEdges)
qed

theorem batch_ascending_and_prepended_witness:
  "run mounted [Tick idle, Tick press0] = Inr held
   \<and> inputLog held = [newEntry (clock 2) ''0.5'' 0]
   \<and> newLogs_of held twoAtOnce = [newEntry (clock 3) ''0.5'' 2, newEntry (clock 3) ''0.5'' 3]
   \<and> step held (Tick twoAtOnce) = Inr (advance held (Tick twoAtOnce))
   \<and> inputLog (advance held (Tick twoAtOnce))
       = [newEntry (clock 3) ''0.5'' 2, newEntry (clock 3) ''0.5'' 3, newEntry (clock 2) ''0.5'' 0]"
proof -
  let ?gp = "pad 0 [True, False, True, True, False, False, False, False]"
  have a: "snd (selectGamepad (activeGamepadIndex held) (getGamepads twoAtOnce)) = Some ?gp"
    by (simp add: held_facts(3) twoAtOnce_def frameAt_def selectGamepad_def activeGamepad_def js_at_def pad_def)
  have r: "risingEdges (prevButtonsRef held) (gp_buttons ?gp) = [2, 3]"
    by (simp add: risingEdges_eval pad_def held_facts(5) numeral_2_eq_2 numeral_3_eq_3)
  have s: "step held (Tick twoAtOnce) = Inr (advance held (Tick twoAtOnce))"
    using a by (rule step_Tick_eight) (simp add: pad_def)
  have k: "activeGamepadIndex (advance held (Tick twoAtOnce)) = activeGamepadIndex held"
    by (simp add: activeGamepadIndex_advance_Tick held_facts(3) twoAtOnce_def frameAt_def activeGamepad_def
        js_at_def pad_def)
  have n: "now twoAtOnce = clock 3" "random twoAtOnce = (\<lambda>k. ''0.5'')"
    by (simp_all add: twoAtOnce_def frameAt_def)
  show ?thesis
    using batch_ascending_and_prepended[OF a, of "advance held (Tick twoAtOnce)"] s k held_facts(2,4)
    by (simp add: r n stamp_const)
qed

text \<open>
  C10, as amended. A call of \<^verbatim>\<open>scanGamepads\<close> that pushes no entry makes no call of
  \<^verbatim>\<open>setInputLog\<close> at all. When the frame keeps the active slot, the log after it is the
  log before it; when the frame changes the active slot, the reset effect empties the
  log.
\<close>

theorem no_rising_edge_no_log_update:
  assumes "newLogs_of st f = []"
  shows "\<not> list_ex writesLog (fst (scanGamepads st f))
       \<and> (step st (Tick f) = Inr st' \<and> activeGamepadIndex st' = activeGamepadIndex st \<longrightarrow>
            inputLog st' = inputLog st)
       \<and> (step st (Tick f) = Inr st' \<and> activeGamepadIndex st' \<noteq> activeGamepadIndex st \<longrightarrow>
            inputLog st' = [])"
proof -
  have "inputLog st' = inputLog st"
    if "step st (Tick f) = Inr st'" "activeGamepadIndex st' = activeGamepadIndex st"
    using that assms advance_Tick_same(1)[of st f] by (auto dest!: step_Inr)
  moreover have "inputLog st' = []"
    if "step st (Tick f) = Inr st'" "activeGamepadIndex st' \<noteq> activeGamepadIndex st"
    using that advance_changed[of st "Tick f"] by (auto dest!: step_Inr)
  ultimately show ?thesis using assms by (simp add: no_write_scan)
qed

lemma held_quiet_frames:
  "newLogs_of held hold0 = []" "newLogs_of held release0 = []"
  "step held (Tick hold0) = Inr (advance held (Tick hold0))"
  "step held (Tick release0) = Inr (advance held (Tick release0))"
  "activeGamepadIndex (advance held (Tick hold0)) = activeGamepadIndex held"
  "activeGamepadIndex (advance held (Tick release0)) = activeGamepadIndex held"
proof -
  note h = pad8_frame[OF held_facts(3), of 3 True False "[]", folded hold0_def]
  note r = pad8_frame[OF held_facts(3), of 3 False False "[]", folded release0_def]
  show "newLogs_of held hold0 = []" unfolding h(3) by (simp add: risingEdges_pad8 held_facts(5))
  show "newLogs_of held release0 = []" unfolding r(3) by (simp add: risingEdges_pad8)
  show "step held (Tick hold0) = Inr (advance held (Tick hold0))" by (rule h(1))
  show "step held (Tick release0) = Inr (advance held (Tick release0))" by (rule r(1))
  show "activeGamepadIndex (advance held (Tick hold0)) = activeGamepadIndex held"
    by (simp add: h(2) held_facts(3))
  show "activeGamepadIndex (advance held (Tick release0)) = activeGamepadIndex held"
    by (simp add: r(2) held_facts(3))
qed

theorem no_rising_edge_no_log_update_witness:
  "run mounted [Tick idle, Tick press0] = Inr held
   \<and> newLogs_of held hold0 = []
   \<and> \<not> list_ex writesLog (fst (scanGamepads held hold0))
   \<and> step held (Tick hold0) = Inr (advance held (Tick hold0))
   \<and> inputLog (advance held (Tick hold0)) = inputLog held
   \<and> newLogs_of held release0 = []
   \<and> step held (Tick release0) = Inr (advance held (Tick release0))
   \<and> inputLog (advance held (Tick release0)) = inputLog held"
  using no_rising_edge_no_log_update[OF held_quiet_frames(1), of "advance held (Tick hold0)"]
    no_rising_edge_no_log_update[OF held_quiet_frames(2), of "advance held (Tick release0)"]
    held_quiet_frames held_facts(2)
  by simp

text \<open>
  C10, as stated, fails: with slot 0 active and one entry in the log, a frame finds
  slot 0 disconnected and an idle gamepad in slot 1. It has no rising edge, yet the log
  is empty after it.
\<close>

theorem quiet_slot_change_empties_log_counterexample:
  "run mounted [Tick idle, Tick press0] = Inr held
   \<and> inputLog held = [newEntry (clock 2) ''0.5'' 0]
   \<and> newLogs_of held swapQuiet = []
   \<and> step held (Tick swapQuiet) = Inr (advance held (Tick swapQuiet))
   \<and> inputLog (advance held (Tick swapQuiet)) = []
   \<and> inputLog (advance held (Tick swapQuiet)) \<noteq> inputLog held"
proof -
  have sels: "snd (selectGamepad (activeGamepadIndex held) (getGamepads swapQuiet)) = Some (pad8 1 False False)"
    by (simp add: held_facts(3) swapQuiet_def frameAt_def selectGamepad_def activeGamepad_def js_at_def
        unplugged_def pad8_def pad_def)
  have n: "newLogs_of held swapQuiet = []"
    by (simp add: newLogs_of_stamp[OF sels] risingEdges_pad8 stamp_Nil)
  have ss: "step held (Tick swapQuiet) = Inr (advance held (Tick swapQuiet))"
    using sels by (rule step_Tick_eight) (simp add: length_pad8)
  have "activeGamepadIndex (advance held (Tick swapQuiet)) = Some 1"
    by (simp add: activeGamepadIndex_advance_Tick held_facts(3) swapQuiet_def frameAt_def activeGamepad_def
        js_at_def unplugged_def pad8_def pad_def)
  then have "activeGamepadIndex (advance held (Tick swapQuiet)) \<noteq> activeGamepadIndex held"
    by (simp add: held_facts(3))
  from advance_changed[OF this] have e: "inputLog (advance held (Tick swapQuiet)) = []" by simp
  show ?thesis using n ss e held_facts(2,4) by simp
qed

subsection \<open>Clearing the log\<close>

lemma step_ClearLog:
  "step st ClearLog =
     (case renderPanel (gamepadState st) of Inl err \<Rightarrow> Inl err | Inr p \<Rightarrow> Inr (st\<lparr>inputLog := []\<rparr>))"
  by (simp add: step_def advance_ClearLog clearLog_def apply_updates_def split: sum.splits)

text \<open>
  C9. \<^verbatim>\<open>clearLog\<close> empties the log at once; a second call changes nothing more; it leaves
  the tracker and the active slot as they are, so the next frame scans exactly as it would
  have without the click and makes the same entries: a held button is not logged again.
  The render after the click reads the snapshot that was there before it.
\<close>

theorem clearLog_empties_idempotent_keeps_tracker:
  "inputLog (advance st ClearLog) = []
   \<and> advance (advance st ClearLog) ClearLog = advance st ClearLog
   \<and> prevButtonsRef (advance st ClearLog) = prevButtonsRef st
   \<and> activeGamepadIndex (advance st ClearLog) = activeGamepadIndex st
   \<and> scanGamepads (advance st ClearLog) f = scanGamepads st f
   \<and> newLogs_of (advance st ClearLog) f = newLogs_of st f
   \<and> step st ClearLog =
       (case renderPanel (gamepadState st) of
          Inl err \<Rightarrow> Inl err
        | Inr p \<Rightarrow> Inr (advance st ClearLog))
   \<and> (case step st ClearLog of Inl err \<Rightarrow> Inl err | Inr s \<Rightarrow> step s ClearLog) = step st ClearLog"
  by (simp add: advance_ClearLog step_ClearLog scanGamepads_reads[of "st\<lparr>inputLog := []\<rparr>" st]
      newLogs_of_reads[of "st\<lparr>inputLog := []\<rparr>" st] split: sum.splits)

subsection \<open>The bounded log\<close>



subsection \<open>Selecting the active slot\<close>

lemma selection_advance:
  "(keepsActive (activeGamepadIndex st) (getGamepads f) \<longrightarrow>
      activeGamepadIndex (advance st (Tick f)) = activeGamepadIndex st)
   \<and> (\<not> keepsActive (activeGamepadIndex st) (getGamepads f) \<and> slotConnected (getGamepads f) j
        \<and> (\<forall>k < j. \<not> slotConnected (getGamepads f) k) \<longrightarrow>
      activeGamepadIndex (advance st (Tick f)) = Some j)
   \<and> (\<not> keepsActive (activeGamepadIndex st) (getGamepads f)
        \<and> (\<forall>k. \<not> slotConnected (getGamepads f) k) \<longrightarrow>
      activeGamepadIndex (advance st (Tick f)) = None)
   \<and> (activeGamepadIndex (advance st (Tick f)) = Some i \<longrightarrow>
      slotConnected (getGamepads f) i
      \<and> (\<exists>gp. js_at (getGamepads f) i = Some (Some gp) \<and> gp_connected gp
            \<and> gamepadState (advance st (Tick f)) = Some (mapGamepadToState gp)))
   \<and> (activeGamepadIndex (advance st (Tick f)) = None \<longrightarrow> gamepadState (advance st (Tick f)) = None)"
proof (cases "activeGamepadIndex st" "getGamepads f" rule: selectGamepad_cases)
  case (keep gp)
  note k = activeGamepad_Some[OF keep(1)]
  have a: "activeGamepadIndex (advance st (Tick f)) = activeGamepadIndex st"
    by (simp add: activeGamepadIndex_advance_Tick keep(1))
  have g: "gamepadState (advance st (Tick f)) = Some (mapGamepadToState gp)"
    by (simp add: gamepadState_advance_Tick keep(2))
  from k a g show ?thesis
    by (auto simp: keepsActive_def slotConnected_def)
next
  case (detect d gp)
  note n = activeGamepad_None[OF detect(1)]
  note s = autoDetect_Some[OF detect(2)]
  have a: "activeGamepadIndex (advance st (Tick f)) = Some d"
    by (simp add: activeGamepadIndex_advance_Tick detect(1,2))
  have g: "gamepadState (advance st (Tick f)) = Some (mapGamepadToState gp)"
    by (simp add: gamepadState_advance_Tick detect(3))
  from s have c: "slotConnected (getGamepads f) d" and low: "\<forall>k<d. \<not> slotConnected (getGamepads f) k"
    by (simp_all add: slotConnected_def)
  have "j = d" if "slotConnected (getGamepads f) j" "\<forall>k < j. \<not> slotConnected (getGamepads f) k"
    using that c low by (metis linorder_neqE_nat)
  with n a g c s show ?thesis by auto
next
  case none
  note n = activeGamepad_None[OF none(1)]
  note s = autoDetect_None[OF none(2)]
  have a: "activeGamepadIndex (advance st (Tick f)) = None"
    by (simp add: activeGamepadIndex_advance_Tick none(1,2))
  have g: "gamepadState (advance st (Tick f)) = None"
    by (simp add: gamepadState_advance_Tick none(3))
  from n a g s show ?thesis by auto
qed

text \<open>
  C4. The active slot after a frame, for any slots and any previous active index: the
  previous index when its slot holds a connected gamepad; otherwise the lowest index
  whose slot holds a connected gamepad; otherwise none. So an active slot after the
  frame is a slot that this frame's list shows connected, and the snapshot kept is the
  one of its gamepad; with no active slot there is no snapshot.
\<close>

theorem active_slot_selection:
  assumes "step st (Tick f) = Inr st'"
  shows "(keepsActive (activeGamepadIndex st) (getGamepads f) \<longrightarrow>
      activeGamepadIndex st' = activeGamepadIndex st)
   \<and> (\<not> keepsActive (activeGamepadIndex st) (getGamepads f) \<and> slotConnected (getGamepads f) j
        \<and> (\<forall>k < j. \<not> slotConnected (getGamepads f) k) \<longrightarrow>
      activeGamepadIndex st' = Some j)
   \<and> (\<not> keepsActive (activeGamepadIndex st) (getGamepads f)
        \<and> (\<forall>k. \<not> slotConnected (getGamepads f) k) \<longrightarrow>
      activeGamepadIndex st' = None)
   \<and> (activeGamepadIndex st' = Some i \<longrightarrow>
      slotConnected (getGamepads f) i
      \<and> (\<exists>gp. js_at (getGamepads f) i = Some (Some gp) \<and> gp_connected gp
            \<and> gamepadState st' = Some (mapGamepadToState gp)))
   \<and> (activeGamepadIndex st' = None \<longrightarrow> gamepadState st' = None)"
  unfolding step_Inr[OF assms] by (rule selection_advance)

theorem active_slot_selection_witness:
  "run mounted [Tick idle, Tick press0] = Inr held
   \<and> activeGamepadIndex held = Some 0
   \<and> step held (Tick stays) = Inr (advance held (Tick stays))
   \<and> activeGamepadIndex (advance held (Tick stays)) = Some 0
   \<and> step held (Tick moves) = Inr (advance held (Tick moves))
   \<and> activeGamepadIndex (advance held (Tick moves)) = Some 2
   \<and> slotConnected (getGamepads moves) 2
   \<and> step held (Tick gone) = Inr (advance held (Tick gone))
   \<and> activeGamepadIndex (advance held (Tick gone)) = None
   \<and> gamepadState (advance held (Tick gone)) = None"
proof -
  note h = held_facts(3)
  have s1: "step held (Tick stays) = Inr (advance held (Tick stays))"
    by (rule step_Tick_eight[where gp = "pad8 0 True False"])
      (simp_all add: h stays_def frameAt_def select_pad8_keep length_pad8)
  have s2: "step held (Tick moves) = Inr (advance held (Tick moves))"
    by (rule step_Tick_eight[where gp = "pad8 2 False False"])
      (simp_all add: h moves_def frameAt_def selectGamepad_def activeGamepad_def js_at_def unplugged_def
        pad8_def pad_def)
  have s3: "step held (Tick gone) = Inr (advance held (Tick gone))"
    by (rule step_Tick_none)
      (simp add: h gone_def frameAt_def selectGamepad_def activeGamepad_def js_at_def unplugged_def
        pad8_def pad_def)
  have k1: "keepsActive (activeGamepadIndex held) (getGamepads stays)"
    unfolding h by (simp add: stays_def frameAt_def keepsActive_def slotConnected_def js_at_def pad8_def pad_def)
  have k2: "\<not> keepsActive (activeGamepadIndex held) (getGamepads moves)"
    unfolding h
    by (simp add: moves_def frameAt_def keepsActive_def slotConnected_def js_at_def pad8_def pad_def unplugged_def)
  have c2: "slotConnected (getGamepads moves) 2"
    by (simp add: moves_def frameAt_def slotConnected_def js_at_def pad8_def pad_def)
  have l2: "\<forall>k<2. \<not> slotConnected (getGamepads moves) k"
  proof (intro allI impI)
    fix k :: nat assume "k < 2"
    then have "k = 0 \<or> k = 1" by arith
    then show "\<not> slotConnected (getGamepads moves) k"
      by (auto simp: moves_def frameAt_def slotConnected_def js_at_def pad8_def pad_def unplugged_def)
  qed
  have k3: "\<not> keepsActive (activeGamepadIndex held) (getGamepads gone)"
    unfolding h
    by (simp add: gone_def frameAt_def keepsActive_def slotConnected_def js_at_def pad8_def pad_def unplugged_def)
  have n3: "\<forall>k. \<not> slotConnected (getGamepads gone) k"
  proof
    fix k :: nat
    have "k = 0 \<or> k = 1 \<or> 2 \<le> k" by arith
    then show "\<not> slotConnected (getGamepads gone) k"
      by (auto simp: gone_def frameAt_def slotConnected_def js_at_def pad8_def pad_def unplugged_def)
  qed
  show ?thesis
    using active_slot_selection[OF s1, of 0 0] active_slot_selection[OF s2, of 2 2]
      active_slot_selection[OF s3, of 0 0] k1 k2 c2 l2 k3 n3 h s1 s2 s3 held_facts(2)
    by simp
qed

subsection \<open>Entry ids and labels\<close>

text \<open>
  C8, as amended. The id of an entry is the frame's \<^verbatim>\<open>getTime()\<close>, the button index and
  one result of \<^verbatim>\<open>Math.random()\<close>, joined by dashes: two ids are equal exactly when all
  three parts are. Hence the entries of one frame always have different ids (they differ
  in the index, whatever the clock and the random source give); every entry of the log
  was made by a frame of the run; and all ids in the log are different whenever any two
  frames of the run differ in their timestamp or share no random result. The label is
  the entry of \<^verbatim>\<open>BUTTON_MAP\<close> for the indices 0 to 17 and \<^verbatim>\<open>Button i\<close> for every other.
\<close>

theorem entry_ids_and_labels:
  "distinct (map entry_id (newLogs_of st f))
   \<and> (entry_id (newEntry d r i) = entry_id (newEntry d' r' i')
        \<longleftrightarrow> getTime d = getTime d' \<and> i = i' \<and> r = r')
   \<and> (run mounted es = Inr st' \<longrightarrow>
        (\<forall>e \<in> set (inputLog st'). \<exists>g \<in> set (ticks es). \<exists>k j. e = newEntry (now g) (random g k) j)
        \<and> (separated (ticks es) \<longrightarrow> distinct (map entry_id (inputLog st'))))
   \<and> button (newEntry d r i) = (case BUTTON_MAP i of Some s \<Rightarrow> s | None \<Rightarrow> ''Button '' @ show_nat i)
   \<and> (BUTTON_MAP i = None \<longleftrightarrow> 17 < i)"
proof -
  have "(\<forall>e \<in> set (inputLog st'). \<exists>g \<in> set (ticks es). \<exists>k j. e = newEntry (now g) (random g k) j)
        \<and> (separated (ticks es) \<longrightarrow> distinct (map entry_id (inputLog st')))"
    if "run mounted es = Inr st'"
    unfolding run_Inr[OF that] using log_entries_made[of _ es] by (simp add: log_ids_distinct)
  then show ?thesis
    by (simp add: distinct_ids_newLogs_of entry_id_newEntry_eq BUTTON_MAP_None)
      (simp add: newEntry_def btnName_table)
qed

text \<open>The run of \<open>pressTwice\<close>: both presses are logged.\<close>

lemma pressTwice_run:
  "run mounted (pressTwice t u) = Inr (advances mounted (pressTwice t u))"
  "inputLog (advances mounted (pressTwice t u)) =
     [newEntry (clock u) ''0.5'' 0, newEntry (clock u) ''0.5'' 1,
      newEntry (clock 5) ''0.5'' 0, newEntry (clock 5) ''0.5'' 1]"
proof -
  let ?e2 = "Tick (frameAt 5 [Some (pad8 0 True True)])"
  let ?e3 = "Tick (frameAt t [Some (pad8 0 False False)])"
  let ?e4 = "Tick (frameAt u [Some (pad8 0 True True)])"
  let ?s2 = "advance detected ?e2"
  let ?s3 = "advance ?s2 ?e3"
  let ?s4 = "advance ?s3 ?e4"
  note f2 = pad8_frame[OF detected_facts(2), of 5 True True "[]"]
  note f3 = pad8_frame[OF f2(2), of t False False "[]"]
  note f4 = pad8_frame[OF f3(2), of u True True "[]"]
  have a: "advances mounted (pressTwice t u) = ?s4"
    by (simp add: pressTwice_def advances_def detected_def)
  show "run mounted (pressTwice t u) = Inr (advances mounted (pressTwice t u))"
    unfolding a by (simp add: pressTwice_def detected_facts(1) f2(1) f3(1) f4(1))
  have l2: "inputLog ?s2 = [newEntry (clock 5) ''0.5'' 0, newEntry (clock 5) ''0.5'' 1]"
    unfolding f2(4) f2(3)
    by (simp add: risingEdges_pad8 detected_facts(3,4) not_truthy_freshTracker)
  have l3: "inputLog ?s3 = inputLog ?s2"
    unfolding f3(4) f3(3) by (simp add: risingEdges_pad8)
  have t3: "\<not> truthy (js_get (prevButtonsRef ?s3) 0)" "\<not> truthy (js_get (prevButtonsRef ?s3) (Suc 0))"
    unfolding f3(5) by simp_all
  show "inputLog (advances mounted (pressTwice t u)) =
     [newEntry (clock u) ''0.5'' 0, newEntry (clock u) ''0.5'' 1,
      newEntry (clock 5) ''0.5'' 0, newEntry (clock 5) ''0.5'' 1]"
    unfolding a f4(4) f4(3) by (simp add: risingEdges_pad8 t3 l3 l2)
qed

lemma show_nat_digits:
  "show_nat 0 = ''0''" "show_nat (Suc 0) = ''1''" "show_nat 5 = ''5''" "show_nat 7 = ''7''"
  by (simp_all add: show_nat.simps[of 0] show_nat.simps[of "Suc 0"] show_nat.simps[of 5]
      show_nat.simps[of 7] digit_char_def)

lemma entry_id_clock:
  "entry_id (newEntry (clock 5) ''0.5'' 0) = ''5-0-0.5''"
  "entry_id (newEntry (clock 5) ''0.5'' (Suc 0)) = ''5-1-0.5''"
  "entry_id (newEntry (clock 7) ''0.5'' 0) = ''7-0-0.5''"
  "entry_id (newEntry (clock 7) ''0.5'' (Suc 0)) = ''7-1-0.5''"
  by (simp_all add: newEntry_def clock_def show_int_def show_nat_digits)

theorem entry_ids_and_labels_witness:
  "run mounted (pressTwice 6 7) = Inr (advances mounted (pressTwice 6 7))
   \<and> separated (ticks (pressTwice 6 7))
   \<and> distinct (map entry_id (inputLog (advances mounted (pressTwice 6 7))))
   \<and> map entry_id (inputLog (advances mounted (pressTwice 6 7)))
       = [''7-0-0.5'', ''7-1-0.5'', ''5-0-0.5'', ''5-1-0.5'']
   \<and> map button (inputLog (advances mounted (pressTwice 6 7))) = [''A'', ''B'', ''A'', ''B'']
   \<and> button (newEntry (clock 7) ''0.5'' 18) = ''Button 18''"
proof -
  have s: "separated (ticks (pressTwice 6 7))"
    by (simp add: pressTwice_def idle_def separate_def frameAt_def clock_def)
  have b: "map button (inputLog (advances mounted (pressTwice 6 7))) = [''A'', ''B'', ''A'', ''B'']"
    by (simp add: pressTwice_run(2) newEntry_def btnName_def BUTTON_MAP_def)
  have n: "BUTTON_MAP 18 = None" by (simp add: BUTTON_MAP_def)
  show ?thesis
    using entry_ids_and_labels[of mounted idle "clock 7" "''0.5''" 18 "clock 7" "''0.5''" 18
        "pressTwice 6 7" "advances mounted (pressTwice 6 7)"]
      s b n pressTwice_run(1)[of 6 7]
    by (simp add: pressTwice_run(2) entry_id_clock show_nat.simps digit_char_def)
qed

text \<open>
  C8, as stated, fails: uniqueness across all entries rests on the clock and the random
  source. When two frames read the same millisecond (a coarse clock) and draw the same
  random result, a button pressed in both gets the same id twice.
\<close>

theorem entry_ids_repeat_counterexample:
  "run mounted (pressTwice 5 5) = Inr (advances mounted (pressTwice 5 5))
   \<and> map entry_id (inputLog (advances mounted (pressTwice 5 5)))
       = [''5-0-0.5'', ''5-1-0.5'', ''5-0-0.5'', ''5-1-0.5'']
   \<and> \<not> distinct (map entry_id (inputLog (advances mounted (pressTwice 5 5))))"
  by (simp add: pressTwice_run entry_id_clock)

subsection \<open>The data panel on a short button array\<close>

text \<open>
  C5. A connected gamepad that reports two buttons (and four axes) is sampled without
  error, and the axis reads default to 0 past the end of the array; but the panel reads
  \<^verbatim>\<open>gamepadState.buttons[ButtonIndex.LT].value\<close> with no guard: slot 6 of the two-button
  snapshot is \<^verbatim>\<open>undefined\<close> and the read throws a \<^verbatim>\<open>TypeError\<close> instead of giving 0.
  The error leaves the render, and the component does not survive its first frame.
\<close>

theorem trigger_read_throws:
  "gamepadState (callback mounted (Tick (frameAt 1 [Some twoButtonPad]))) = Some (mapGamepadToState twoButtonPad)
   \<and> gamepadState (advances mounted [Tick (frameAt 1 [Some twoButtonPad])]) = Some (mapGamepadToState twoButtonPad)
   \<and> triggerValue (mapGamepadToState twoButtonPad) ButtonIndex_LT = Inl TypeError
   \<and> renderPanel (gamepadState (callback mounted (Tick (frameAt 1 [Some twoButtonPad])))) = Inl TypeError
   \<and> step mounted (Tick (frameAt 1 [Some twoButtonPad])) = Inl TypeError
   \<and> run mounted [Tick (frameAt 1 [Some twoButtonPad])] = Inl TypeError"
proof -
  let ?e = "Tick (frameAt 1 [Some twoButtonPad])"
  have g: "gamepadState (advance mounted ?e) = Some (mapGamepadToState twoButtonPad)"
    by (simp add: gamepadState_advance_Tick mounted_def frameAt_def selectGamepad_def activeGamepad_def
        twoButtonPad_def pad_def)
  have t: "triggerValue (mapGamepadToState twoButtonPad) ButtonIndex_LT = Inl TypeError"
    by (simp add: triggerValue_def mapGamepadToState_def twoButtonPad_def pad_def js_at_def)
  have r: "renderPanel (gamepadState (advance mounted ?e)) = Inl TypeError"
    unfolding g using t by (simp add: renderPanel_def)
  have s: "step mounted ?e = Inl TypeError" using r by (rule step_thrown)
  show ?thesis unfolding gamepadState_callback using g t r s by (simp add: advances_def)
qed

end
